theory Spec2Isabelle
  imports Main "HOL-Library.Sublist" "HOL-Library.Char_ord" "HOL-Library.List_Lexorder"
begin

section \<open>Paths\<close>

text \<open>
  The repository class works on \<^verbatim>\<open>py.path.local\<close> objects: absolute, normalised POSIX
  paths. A path is modelled by the list of its segments below the root \<^verbatim>\<open>/\<close>, so
  \<^verbatim>\<open>/home/u/.bashrc\<close> is \<open>[''home'', ''u'', ''.bashrc'']\<close> and \<^verbatim>\<open>/\<close> is \<open>[]\<close>.
  The library keeps every path normalised: no segment is empty, contains the separator,
  or is \<^verbatim>\<open>.\<close> or \<^verbatim>\<open>..\<close>; \<open>valid_path\<close> states this.
\<close>

type_synonym path = "string list"

definition valid_seg :: "string \<Rightarrow> bool" where
  "valid_seg s = (s \<noteq> [] \<and> CHR ''/'' \<notin> set s \<and> s \<noteq> ''.'' \<and> s \<noteq> ''..'')"

definition valid_path :: "path \<Rightarrow> bool" where
  "valid_path p = list_all valid_seg p"

text \<open>\<^verbatim>\<open>'/'.join(l)\<close> and \<^verbatim>\<open>s.split('/')\<close> of Python's strings.\<close>

fun sepjoin :: "string list \<Rightarrow> string" where
  "sepjoin [] = []"
| "sepjoin [s] = s"
| "sepjoin (s # t # ss) = s @ CHR ''/'' # sepjoin (t # ss)"

fun splitsep :: "string \<Rightarrow> string list" where
  "splitsep [] = [[]]"
| "splitsep (c # cs) =
     (if c = CHR ''/'' then [] # splitsep cs
      else (c # hd (splitsep cs)) # tl (splitsep cs))"

text \<open>\<^verbatim>\<open>str(path)\<close>: the segments, each after a separator; the root is \<^verbatim>\<open>/\<close>.\<close>

definition strpath :: "path \<Rightarrow> string" where
  "strpath p = (if p = [] then ''/'' else concat (map (\<lambda>s. CHR ''/'' # s) p))"

text \<open>\<^verbatim>\<open>path.basename\<close>: the last segment, empty for the root.\<close>

definition basename :: "path \<Rightarrow> string" where
  "basename p = (if p = [] then [] else last p)"

text \<open>
  \<^verbatim>\<open>posixpath.normpath\<close> on an absolute path, component by component: empty components
  and \<^verbatim>\<open>.\<close> are dropped, \<^verbatim>\<open>..\<close> removes the component before it (and nothing at the
  root), anything else is appended.
\<close>

definition norm_comp :: "path \<Rightarrow> string \<Rightarrow> path" where
  "norm_comp acc c =
     (if c = [] \<or> c = ''.'' then acc
      else if c = ''..'' then butlast acc
      else acc @ [c])"

definition normpath :: "string list \<Rightarrow> path" where
  "normpath comps = foldl norm_comp [] comps"

text \<open>\<^verbatim>\<open>arg.strip('/')\<close>.\<close>

definition strip_sep :: "string \<Rightarrow> string" where
  "strip_sep s = rev (dropWhile (\<lambda>c. c = CHR ''/'') (rev (dropWhile (\<lambda>c. c = CHR ''/'') s)))"

text \<open>
  \<^verbatim>\<open>path.join(arg)\<close> with one string argument: the argument is stripped of separators at
  both ends, appended to the path's string after a separator, and the result normalised.
\<close>

definition join :: "path \<Rightarrow> string \<Rightarrow> path" where
  "join p arg = normpath (p @ splitsep (strip_sep arg))"

text \<open>
  \<^verbatim>\<open>path.relto(base)\<close>: the part of the path's string after \<^verbatim>\<open>base\<close> and a separator,
  the empty string when the path does not start so (also when both are equal).
\<close>

definition relto :: "path \<Rightarrow> path \<Rightarrow> string" where
  "relto p base = (if prefix base p then sepjoin (drop (length base) p) else [])"

text \<open>
  \<^verbatim>\<open>self.bestrelpath(dest)\<close>: \<^verbatim>\<open>.\<close> when both are equal; otherwise one \<^verbatim>\<open>..\<close> for each
  segment of \<^verbatim>\<open>self\<close> below the common ancestor, then the rest of \<^verbatim>\<open>dest\<close> below it.
  \<^verbatim>\<open>self.common(dest)\<close> is the longest common prefix of the two segment lists.
\<close>

definition bestrelpath :: "path \<Rightarrow> path \<Rightarrow> string" where
  "bestrelpath self dest =
     (if self = dest then ''.''
      else
        let base = longest_common_prefix self dest;
            self2base = relto self base;
            reldest = relto dest base;
            n = (if self2base \<noteq> [] then count_list self2base CHR ''/'' + 1 else 0);
            l = replicate n ''..'' @ (if reldest \<noteq> [] then [reldest] else [])
        in sepjoin l)"

section \<open>The repository and its path mapping\<close>

text \<open>
  The fields of \<^verbatim>\<open>Repository\<close>: the repository directory, the home directory, the list of
  targets to ignore, and whether the target's leading dot is preserved.
\<close>

record Repository =
  repodir :: path
  homedir :: path
  ignore :: "string list"
  dot :: bool

text \<open>
  Modelled from the spec: the module \<^verbatim>\<open>dotfile\<close> with the class \<^verbatim>\<open>Dotfile\<close> is not among
  the sources. A dotfile is the value built by \<^verbatim>\<open>Dotfile(name, target)\<close>: the home-side
  path and the repository-side path (section 3 of the specification).
\<close>

record Dotfile =
  name :: path
  target :: path

text \<open>\<^verbatim>\<open>_target_to_name\<close>: the expected symlink for a repository target.\<close>

definition target_to_name :: "Repository \<Rightarrow> path \<Rightarrow> path" where
  "target_to_name r tgt =
     (let relpath = bestrelpath (repodir r) tgt
      in if dot r then join (homedir r) relpath
         else join (homedir r) (CHR ''.'' # relpath))"

text \<open>\<^verbatim>\<open>_name_to_target\<close>: the expected repository target for a symlink.\<close>

definition name_to_target :: "Repository \<Rightarrow> path \<Rightarrow> path" where
  "name_to_target r nm =
     (let relpath = bestrelpath (homedir r) nm
      in if dot r then join (repodir r) relpath
         else join (repodir r) (drop 1 relpath))"

section \<open>Glob matching\<close>

text \<open>
  The bracket expressions of \<^verbatim>\<open>fnmatch.translate\<close>, as CPython 3.11 reads them. The text
  between the brackets is cut into chunks at the hyphens that stand for a range: the
  search for a hyphen skips the first character of the text (and a leading \<^verbatim>\<open>!\<close>), and
  after a hyphen it skips the two characters that follow; a hyphen at the very end is an
  ordinary character. \<open>find_dash k s\<close> is \<^verbatim>\<open>s.find('-', k)\<close>.
\<close>

definition find_dash :: "nat \<Rightarrow> string \<Rightarrow> nat option" where
  "find_dash k s =
     (if CHR ''-'' \<in> set (drop k s)
      then Some (k + length (takeWhile (\<lambda>c. c \<noteq> CHR ''-'') (drop k s)))
      else None)"

function split_chunks :: "nat \<Rightarrow> string \<Rightarrow> string list" where
  "split_chunks k s =
     (case find_dash k s of
        None \<Rightarrow> [s]
      | Some j \<Rightarrow>
          if drop (Suc j) s = [] then [take j s @ ''-'']
          else take j s # split_chunks 2 (drop (Suc j) s))"
  by pat_completeness auto
termination
  by (relation "measure (\<lambda>(k, s). length s)") auto

text \<open>
  Empty ranges are removed, from the last to the first: where the last character of a
  chunk is greater than the first of the next, both characters go and the two chunks
  become one. (Earlier versions of the library raise an error on such a range.)
\<close>

fun squeeze :: "string list \<Rightarrow> string list" where
  "squeeze [] = []"
| "squeeze [c] = [c]"
| "squeeze (c # cs) =
     (case squeeze cs of
        [] \<Rightarrow> [c]
      | d # ds \<Rightarrow>
          if c \<noteq> [] \<and> d \<noteq> [] \<and> last c > hd d then (butlast c @ tl d) # ds
          else c # d # ds)"

text \<open>
  The chunks are joined by range hyphens, \<open>Dash\<close>; every other character, a hyphen inside
  a chunk too, stands for itself, \<open>Ch\<close>. The regular expression's character set is read
  from these: a character, a range hyphen and a character are a range, anything else is
  the range from a character to itself. A \<^verbatim>\<open>!\<close> at the start of what is left negates the
  set.
\<close>

datatype ctok = Ch char | Dash

fun join_toks :: "string list \<Rightarrow> ctok list" where
  "join_toks [] = []"
| "join_toks [c] = map Ch c"
| "join_toks (c # cs) = map Ch c @ Dash # join_toks cs"

fun class_items :: "ctok list \<Rightarrow> (char \<times> char) list" where
  "class_items (Ch a # Dash # Ch b # rest) = (a, b) # class_items rest"
| "class_items (Ch a # rest) = (a, a) # class_items rest"
| "class_items (Dash # rest) = (CHR ''-'', CHR ''-'') # class_items rest"
| "class_items [] = []"

definition char_class :: "string \<Rightarrow> bool \<times> (char \<times> char) list" where
  "char_class stuff =
     (let chunks = (if CHR ''-'' \<in> set stuff
                    then squeeze (split_chunks (if take 1 stuff = ''!'' then 2 else 1) stuff)
                    else [stuff]);
          toks = join_toks chunks;
          neg = (take 1 toks = [Ch CHR ''!''])
      in (neg, class_items (if neg then drop 1 toks else toks)))"

text \<open>
  \<open>bracket p\<close> reads the pattern \<open>p\<close> after an opening \<^verbatim>\<open>[\<close>: a \<^verbatim>\<open>]\<close> that comes first
  (after an optional \<^verbatim>\<open>!\<close>) belongs to the set, and the set ends at the next \<^verbatim>\<open>]\<close>;
  without one there is no bracket expression (\<open>None\<close>). The result is the set and the
  rest of the pattern.
\<close>

definition close_at :: "string \<Rightarrow> (string \<times> string) option" where
  "close_at q =
     (let rest = dropWhile (\<lambda>c. c \<noteq> CHR '']'') q
      in if rest = [] then None else Some (takeWhile (\<lambda>c. c \<noteq> CHR '']'') q, drop 1 rest))"

definition bracket :: "string \<Rightarrow> ((bool \<times> (char \<times> char) list) \<times> string) option" where
  "bracket p =
     (let bang = (if take 1 p = ''!'' then ''!'' else []);
          p1 = drop (length bang) p;
          first = (if take 1 p1 = '']'' then '']'' else [])
      in case close_at (drop (length first) p1) of
           None \<Rightarrow> None
         | Some (body, rest) \<Rightarrow> Some (char_class (bang @ first @ body), rest))"

text \<open>A character is in a set when one of the ranges holds it, or none if the set is negated.\<close>

definition in_class :: "char \<Rightarrow> bool \<times> (char \<times> char) list \<Rightarrow> bool" where
  "in_class d cls = (case cls of (neg, items) \<Rightarrow> list_ex (\<lambda>(a, b). a \<le> d \<and> d \<le> b) items \<noteq> neg)"

lemma close_at_shorter: "close_at q = Some (body, rest) \<Longrightarrow> length rest < length q"
proof -
  assume a: "close_at q = Some (body, rest)"
  let ?r = "dropWhile (\<lambda>c. c \<noteq> CHR '']'') q"
  from a have r: "?r \<noteq> []" "rest = drop 1 ?r"
    by (auto simp: close_at_def Let_def split: if_splits)
  have "length ?r \<le> length q" by (rule length_dropWhile_le)
  moreover have "length (drop 1 ?r) < length ?r" using r(1) by (cases ?r) simp_all
  ultimately show ?thesis using r(2) by simp
qed

lemma bracket_shorter: "bracket p = Some (cls, rest) \<Longrightarrow> length rest < length p"
proof -
  assume a: "bracket p = Some (cls, rest)"
  let ?p1 = "drop (length (if take 1 p = ''!'' then ''!'' else [])) p"
  let ?k = "length (if take 1 ?p1 = '']'' then '']'' else [])"
  from a[unfolded bracket_def Let_def] obtain body where "close_at (drop ?k ?p1) = Some (body, rest)"
    by (cases "close_at (drop ?k ?p1)") auto
  then have "length rest < length (drop ?k ?p1)" by (rule close_at_shorter)
  moreover have "length (drop ?k ?p1) \<le> length p" by simp
  ultimately show ?thesis by simp
qed

text \<open>
  \<^verbatim>\<open>fnmatch.fnmatch(name, pattern)\<close> on POSIX: \<^verbatim>\<open>*\<close> matches any sequence of characters
  (the separator included), \<^verbatim>\<open>?\<close> any single character, a bracket expression any
  character in its set, and every other character itself; so does a \<^verbatim>\<open>[\<close> that opens no
  bracket expression. The first argument is the name, the second the pattern.
\<close>

function fnmatch_glob :: "string \<Rightarrow> string \<Rightarrow> bool" where
  "fnmatch_glob [] [] = True"
| "fnmatch_glob (d # t) [] = False"
| "fnmatch_glob [] (c # p) = (c = CHR ''*'' \<and> fnmatch_glob [] p)"
| "fnmatch_glob (d # t) (c # p) =
     (if c = CHR ''*'' then fnmatch_glob (d # t) p \<or> fnmatch_glob t (c # p)
      else if c = CHR ''?'' then fnmatch_glob t p
      else if c = CHR ''['' then
        (case bracket p of
           None \<Rightarrow> d = CHR ''['' \<and> fnmatch_glob t p
         | Some (cls, rest) \<Rightarrow> in_class d cls \<and> fnmatch_glob t rest)
      else d = c \<and> fnmatch_glob t p)"
  by pat_completeness auto
termination
  by (relation "measure (\<lambda>(s, p). length s + length p)") (auto dest: bracket_shorter)

text \<open>
  \<^verbatim>\<open>path.fnmatch(pattern)\<close>: a pattern without a separator is matched against the
  basename; any other pattern against the whole path string, after \<^verbatim>\<open>*/\<close> is put in front
  of a pattern that is not absolute.
\<close>

definition fnmatch :: "path \<Rightarrow> string \<Rightarrow> bool" where
  "fnmatch p pattern =
     (if CHR ''/'' \<notin> set pattern then fnmatch_glob (basename p) pattern
      else fnmatch_glob (strpath p)
             (if take 1 pattern = ''/'' then pattern else CHR ''*'' # CHR ''/'' # pattern))"

text \<open>The test \<^verbatim>\<open>name.fnmatch('%s/*' % root)\<close> that \<^verbatim>\<open>_dotfile\<close> makes for both roots.\<close>

abbreviation rooted_in :: "path \<Rightarrow> path \<Rightarrow> bool" where
  "rooted_in root nm \<equiv> fnmatch nm (strpath root @ ''/*'')"

text \<open>The characters that make a pattern of a string: a string free of them matches itself only.\<close>

definition glob_free :: "string \<Rightarrow> bool" where
  "glob_free s = (\<forall>c \<in> set s. c \<noteq> CHR ''*'' \<and> c \<noteq> CHR ''?'' \<and> c \<noteq> CHR ''['')"

section \<open>The file system\<close>

text \<open>
  The file system is a tree: a node is a directory with its named entries, in the order
  in which \<^verbatim>\<open>os.listdir\<close> returns them, or anything that is not a directory. The tree's
  root is the directory \<^verbatim>\<open>/\<close>. An entry is found by its name, the first one when a name
  occurs twice.
\<close>

datatype node = File | Dir "(string \<times> node) list"

fun lookup :: "node \<Rightarrow> path \<Rightarrow> node option" where
  "lookup n [] = Some n"
| "lookup File (s # p) = None"
| "lookup (Dir es) (s # p) = (case map_of es s of None \<Rightarrow> None | Some c \<Rightarrow> lookup c p)"

text \<open>\<^verbatim>\<open>path.check(dir=1)\<close>: the path exists and is a directory.\<close>

definition check_dir :: "node \<Rightarrow> path \<Rightarrow> bool" where
  "check_dir fs p = (case lookup fs p of Some (Dir es) \<Rightarrow> True | _ \<Rightarrow> False)"

text \<open>
  \<^verbatim>\<open>path.listdir()\<close>: the paths of the entries of a directory; on anything else the
  library raises, which is \<open>None\<close> here.
\<close>

definition listdir :: "node \<Rightarrow> path \<Rightarrow> path list option" where
  "listdir fs p =
     (case lookup fs p of Some (Dir es) \<Rightarrow> Some (map (\<lambda>n. p @ [n]) (map fst es)) | _ \<Rightarrow> None)"

lemma lookup_snoc:
  "lookup fs (p @ [n]) = (case lookup fs p of Some (Dir es) \<Rightarrow> map_of es n | _ \<Rightarrow> None)"
  by (induction fs p rule: lookup.induct) (auto split: option.splits node.splits)

lemma size_child: "map_of es n = Some c \<Longrightarrow> size c < size (Dir es)"
  by (induction es) (auto split: if_splits)

lemma listdir_child_smaller:
  assumes "listdir fs p = Some entries" "q \<in> set entries" "check_dir fs q"
  shows "size (the (lookup fs q)) < size (the (lookup fs p))"
proof -
  obtain es where es: "lookup fs p = Some (Dir es)"
    using assms(1) by (auto simp: listdir_def split: option.splits node.splits)
  then obtain n where q: "q = p @ [n]"
    using assms(1,2) by (auto simp: listdir_def)
  obtain c where c: "lookup fs q = Some c" "map_of es n = Some c"
    using assms(3) es q by (auto simp: check_dir_def lookup_snoc split: option.splits)
  show ?thesis using size_child[OF c(2)] es c(1) by simp
qed

text \<open>
  \<^verbatim>\<open>path.visit(fil, rec)\<close>, the library's depth-first generator: it lists the directory,
  first yields all that the walk of each subdirectory accepted by \<^verbatim>\<open>rec\<close> yields, then
  the entries of the directory itself that \<^verbatim>\<open>fil\<close> accepts. \<open>gen\<close> is the list of the
  paths yielded when the file system does not change during the walk. The walk starts
  on directories only (the callers check); on anything else the list is empty.
\<close>

function gen :: "node \<Rightarrow> (path \<Rightarrow> bool) \<Rightarrow> (path \<Rightarrow> bool) \<Rightarrow> path \<Rightarrow> path list" where
  "gen fs fil recf p =
     (case listdir fs p of
        None \<Rightarrow> []
      | Some entries \<Rightarrow>
          (let dirs = filter (\<lambda>q. check_dir fs q \<and> recf q) entries
           in concat (map (gen fs fil recf) dirs) @ filter fil entries))"
  by pat_completeness auto
termination
  by (relation "measure (\<lambda>(fs, fil, recf, p). size (the (lookup fs p)))")
     (auto simp: listdir_child_smaller)

declare gen.simps [simp del]

section \<open>Validating a candidate path\<close>

text \<open>
  Modelled from the spec: the module \<^verbatim>\<open>exceptions\<close> is not among the sources. Its four
  validation errors are the constructors below, each carrying the offending path, and all
  of them are \<^verbatim>\<open>DotfileException\<close>s (section 7 of the specification).
\<close>

datatype error = NotRootedInHome path | InRepository path | TargetIgnored path | IsDirectory path

text \<open>\<^verbatim>\<open>_dotfile\<close>: a valid dotfile for the given path, or the error raised.\<close>

definition dotfile :: "Repository \<Rightarrow> node \<Rightarrow> path \<Rightarrow> error + Dotfile" where
  "dotfile r fs nm =
     (let tgt = name_to_target r nm
      in if \<not> fnmatch nm (strpath (homedir r) @ ''/*'') then Inl (NotRootedInHome nm)
         else if fnmatch nm (strpath (repodir r) @ ''/*'') then Inl (InRepository nm)
         else if basename tgt \<in> set (ignore r) then Inl (TargetIgnored nm)
         else if check_dir fs nm then Inl (IsDirectory nm)
         else Inr \<lparr>name = nm, target = tgt\<rparr>)"

section \<open>Listing and bulk resolution\<close>

text \<open>\<^verbatim>\<open>_contents\<close>: all unignored files contained below a directory.\<close>

definition contents_in :: "Repository \<Rightarrow> node \<Rightarrow> path \<Rightarrow> path list" where
  "contents_in r fs dir =
     gen fs (\<lambda>node. \<not> check_dir fs node \<and> basename node \<notin> set (ignore r))
            (\<lambda>node. basename node \<notin> set (ignore r)) dir"

lemma gen_satisfies_filter: "q \<in> set (gen fs fil recf p) \<Longrightarrow> fil q"
proof (induction fs fil recf p rule: gen.induct)
  case (1 fs fil recf p)
  show ?case
  proof (cases "listdir fs p")
    case None
    then show ?thesis using "1.prems" by (simp add: gen.simps)
  next
    case (Some entries)
    then show ?thesis
      using "1.prems" "1.IH"[OF Some refl] by (auto simp: gen.simps[of fs fil recf p])
  qed
qed

lemma contents_in_not_dir: "q \<in> set (contents_in r fs p) \<Longrightarrow> \<not> check_dir fs q"
  unfolding contents_in_def by (drule gen_satisfies_filter) simp

lemma length_filter_remove1:
  "p \<in> set xs \<Longrightarrow> P p \<Longrightarrow> length (filter P (remove1 p xs)) < length (filter P xs)"
proof -
  assume "p \<in> set xs" "P p"
  then have in_f: "p \<in> set (filter P xs)" by simp
  then have "0 < length (filter P xs)" by (rule length_pos_if_in_set)
  then show ?thesis using in_f by (simp add: filter_remove1 length_remove1)
qed

lemma filter_contents_in: "filter (check_dir fs) (contents_in r fs p) = []"
  by (simp add: filter_empty_conv contents_in_not_dir)

text \<open>
  The loop of \<^verbatim>\<open>dotfiles\<close> that expands directories. It iterates over the list while
  changing it: Python's list iterator keeps an index, so the loop is a recursion on the
  index \<open>i\<close> and the current list. \<^verbatim>\<open>paths.extend\<close> appends, \<^verbatim>\<open>paths.remove\<close> deletes the
  first occurrence, and the index moves on by one in any case.
\<close>

function expand :: "Repository \<Rightarrow> node \<Rightarrow> nat \<Rightarrow> path list \<Rightarrow> path list" where
  "expand r fs i paths =
     (if i < length paths then
        (let p = paths ! i
         in if check_dir fs p
            then expand r fs (Suc i) (remove1 p (paths @ contents_in r fs p))
            else expand r fs (Suc i) paths)
      else paths)"
  by pat_completeness auto
termination
proof (relation "measures [\<lambda>(r, fs, i, paths). length (filter (check_dir fs) paths),
                            \<lambda>(r, fs, i, paths). length paths - i]", goal_cases)
  case 1
  then show ?case by simp
next
  case (2 r fs i paths p)
  have "length (filter (check_dir fs) (remove1 p (paths @ contents_in r fs p)))
          < length (filter (check_dir fs) (paths @ contents_in r fs p))"
    using 2 by (intro length_filter_remove1) simp_all
  then show ?case by (simp add: filter_contents_in)
next
  case (3 r fs i paths p)
  then show ?case by simp
qed

declare expand.simps [simp del]

text \<open>
  \<^verbatim>\<open>construct\<close> inside \<^verbatim>\<open>dotfiles\<close>: the dotfile, or \<^verbatim>\<open>None\<close> after the error has been
  printed with \<^verbatim>\<open>echo\<close>. The printed errors are collected in a list, oldest first.
\<close>

definition construct :: "Repository \<Rightarrow> node \<Rightarrow> path \<Rightarrow> error list \<Rightarrow> Dotfile option \<times> error list" where
  "construct r fs p out =
     (case dotfile r fs p of
        Inr d \<Rightarrow> (Some d, out)
      | Inl err \<Rightarrow> (None, out @ [err]))"

fun map_construct :: "Repository \<Rightarrow> node \<Rightarrow> path list \<Rightarrow> error list \<Rightarrow> Dotfile option list \<times> error list" where
  "map_construct r fs [] out = ([], out)"
| "map_construct r fs (p # ps) out =
     (let (d, out1) = construct r fs p out;
          (ds, out2) = map_construct r fs ps out1
      in (d # ds, out2))"

text \<open>
  \<^verbatim>\<open>dotfiles(paths)\<close>. The first line builds a \<^verbatim>\<open>set\<close> of the paths and lists it; the order
  of that list depends on the hashes, so it is a parameter \<open>set_order\<close> here (a function
  that returns the distinct paths of its argument in some order). The result is the list
  of dotfiles together with the errors printed.
\<close>

definition dotfiles :: "Repository \<Rightarrow> node \<Rightarrow> (path list \<Rightarrow> path list) \<Rightarrow> path list \<Rightarrow> Dotfile list \<times> error list" where
  "dotfiles r fs set_order paths =
     (let paths1 = set_order paths;
          paths2 = expand r fs 0 paths1;
          (ds, out) = map_construct r fs paths2 []
      in (map the (filter (\<lambda>d. d \<noteq> None) ds), out))"

text \<open>
  \<^verbatim>\<open>contents()\<close>: the dotfiles of the files in the repository, sorted by the string of
  their name (\<^verbatim>\<open>sorted\<close> is stable, as \<open>sort_key\<close> is). The constructor has made sure
  that the repository directory exists; where it is no directory the walk raises,
  which is \<open>None\<close> here.
\<close>

definition contents :: "Repository \<Rightarrow> node \<Rightarrow> Dotfile list option" where
  "contents r fs =
     (if check_dir fs (repodir r)
      then Some (sort_key (\<lambda>d. strpath (name d))
                   (map (\<lambda>tgt. \<lparr>name = target_to_name r tgt, target = tgt\<rparr>)
                        (contents_in r fs (repodir r))))
      else None)"

section \<open>Pruning\<close>

text \<open>
  Changing the file system: \<open>update_at fs p f\<close> replaces the node at the path \<open>p\<close> by \<open>f\<close> of
  it. \<^verbatim>\<open>dir.remove()\<close> deletes the entry of the directory from its parent, with all that is
  below it; the root has no entry and stays.
\<close>

fun update_at :: "node \<Rightarrow> path \<Rightarrow> (node \<Rightarrow> node) \<Rightarrow> node" where
  "update_at n [] f = f n"
| "update_at File (s # p) f = File"
| "update_at (Dir es) (s # p) f =
     Dir (map (\<lambda>(k, c). if k = s then (k, update_at c p f) else (k, c)) es)"

definition del_entry :: "string \<Rightarrow> node \<Rightarrow> node" where
  "del_entry n d = (case d of Dir es \<Rightarrow> Dir (filter (\<lambda>(k, c). k \<noteq> n) es) | File \<Rightarrow> File)"

definition remove :: "node \<Rightarrow> path \<Rightarrow> node" where
  "remove fs q = (if q = [] then fs else update_at fs (butlast q) (del_entry (last q)))"

text \<open>
  \<^verbatim>\<open>for x in path.visit(fil, rec): body(x)\<close> with a body that changes the file system. The
  generator is consumed lazily: it has listed the directory and chosen the subdirectories
  to walk when it started on the directory, it walks them one after the other, each on
  the file system as the body has left it, and then tests \<^verbatim>\<open>fil\<close> on each entry of its
  list, again on the file system of that moment, and hands the entry to the body before it
  tests the next. \<open>None\<close> is the library's error for listing what is no directory. The
  first argument bounds the depth of the recursion; \<open>None\<close> is also the result when it is
  used up, which \<open>prune\<close> excludes by starting with the size of the whole tree.
\<close>

fun visit_each :: "nat \<Rightarrow> (node \<Rightarrow> path \<Rightarrow> bool) \<Rightarrow> (path \<Rightarrow> bool) \<Rightarrow> (path \<Rightarrow> node \<Rightarrow> node) \<Rightarrow>
    path \<Rightarrow> node \<Rightarrow> node option" where
  "visit_each 0 fil recf body p fs = None"
| "visit_each (Suc k) fil recf body p fs =
     (case listdir fs p of
        None \<Rightarrow> None
      | Some entries \<Rightarrow>
          (let dirs = filter (\<lambda>q. check_dir fs q \<and> recf q) entries
           in case fold (\<lambda>subdir st. Option.bind st (visit_each k fil recf body subdir)) dirs (Some fs) of
                None \<Rightarrow> None
              | Some fs1 \<Rightarrow>
                  Some (fold (\<lambda>q st. if fil st q then body q st else st) entries fs1)))"

text \<open>\<^verbatim>\<open>prune()\<close>: remove any empty directories in the repository.\<close>

definition prune :: "Repository \<Rightarrow> node \<Rightarrow> node option" where
  "prune r fs =
     visit_each (size fs)
       (\<lambda>st node. check_dir st node \<and> basename node \<notin> set (ignore r))
       (\<lambda>node. basename node \<notin> set (ignore r))
       (\<lambda>dir st. if listdir st dir = Some [] then remove st dir else st)
       (repodir r) fs"

section \<open>Well-formed trees and the pruned tree\<close>

text \<open>In a well-formed tree the names of the entries of every directory are distinct.\<close>

fun wf_node :: "node \<Rightarrow> bool" where
  "wf_node File = True"
| "wf_node (Dir es) = (distinct (map fst es) \<and> list_all (\<lambda>(n, c). wf_node c) es)"

text \<open>
  What a walk of \<open>prune\<close> makes of a directory, stated on the tree: every subdirectory
  that is not ignored is pruned, and then dropped when it is empty. \<open>prune\<close> is shown
  below to compute this. \<open>walk_children\<close> and \<open>drop_empty\<close> are the two phases of a walk,
  restricted to a set of names.
\<close>

definition isdir :: "node \<Rightarrow> bool" where
  "isdir c = (case c of Dir es \<Rightarrow> True | File \<Rightarrow> False)"

fun prune_walk :: "Repository \<Rightarrow> node \<Rightarrow> node" where
  "prune_walk r File = File"
| "prune_walk r (Dir es) =
     (let es1 = map (\<lambda>(n, c). if isdir c \<and> n \<notin> set (ignore r) then (n, prune_walk r c) else (n, c)) es;
          es2 = filter (\<lambda>(n, c). \<not> (isdir c \<and> n \<notin> set (ignore r) \<and> c = Dir [])) es1
      in Dir es2)"

definition walk_children :: "string set \<Rightarrow> Repository \<Rightarrow> node \<Rightarrow> node" where
  "walk_children N r d =
     (case d of
        Dir es \<Rightarrow> Dir (map (\<lambda>(n, c). if n \<in> N then (n, prune_walk r c) else (n, c)) es)
      | File \<Rightarrow> File)"

definition drop_empty :: "string set \<Rightarrow> Repository \<Rightarrow> node \<Rightarrow> node" where
  "drop_empty N r d =
     (case d of
        Dir es \<Rightarrow> Dir (filter (\<lambda>(n, c). \<not> (n \<in> N \<and> isdir c \<and> n \<notin> set (ignore r) \<and> c = Dir [])) es)
      | File \<Rightarrow> File)"

abbreviation prune_fil :: "Repository \<Rightarrow> node \<Rightarrow> path \<Rightarrow> bool" where
  "prune_fil r \<equiv> (\<lambda>st node. check_dir st node \<and> basename node \<notin> set (ignore r))"

abbreviation prune_rec :: "Repository \<Rightarrow> path \<Rightarrow> bool" where
  "prune_rec r \<equiv> (\<lambda>node. basename node \<notin> set (ignore r))"

abbreviation prune_body :: "path \<Rightarrow> node \<Rightarrow> node" where
  "prune_body \<equiv> (\<lambda>dir st. if listdir st dir = Some [] then remove st dir else st)"

section \<open>Example configurations\<close>

text \<open>A configuration used in the examples: the dot is stripped in the repository.\<close>

definition ex_repo :: Repository where
  "ex_repo = \<lparr>repodir = [''repo''], homedir = [''home'', ''u''], ignore = [''.git''], dot = False\<rparr>"

text \<open>A file system for it: a home directory and a repository beside it.\<close>

definition ex_fs :: node where
  "ex_fs = Dir [(''home'', Dir [(''u'', Dir [
                   (''.bashrc'', File),
                   (''.gitconfig'', File),
                   (''.config'', Dir [(''x'', File)])])]),
                (''repo'', Dir [(''vimrc'', File)])]"

text \<open>
  A configuration that keeps the dot, with the repository inside the home directory and
  \<^verbatim>\<open>b\<close> ignored, and a file system for it.
\<close>

definition ex_repo_dot :: Repository where
  "ex_repo_dot = \<lparr>repodir = [''home'', ''u'', ''repo''], homedir = [''home'', ''u''],
                  ignore = [''b''], dot = True\<rparr>"

definition ex_tree :: node where
  "ex_tree = Dir [(''home'', Dir [(''u'', Dir [
                (''dir'', Dir [(''a'', File), (''b'', File), (''c'', Dir [(''d'', File)])]),
                (''d1'', Dir [(''f1'', File)]),
                (''d2'', Dir [(''f2'', File)]),
                (''repo'', Dir [(''z'', File), (''a'', File), (''m'', File)])])])]"

text \<open>A batch with one entry for each kind of error.\<close>

definition ex_paths :: "path list" where
  "ex_paths = [[''etc'', ''passwd''], [''home'', ''u'', ''repo'', ''z''], [''home'', ''u'', ''dir'', ''b''],
               [''home'', ''u'', ''d1''], [''home'', ''u'', ''d2''], [''home'', ''u'', ''dir'', ''a'']]"

text \<open>
  Two repositories to prune: one with an empty directory inside another, and one with
  an empty directory inside the ignored directory \<^verbatim>\<open>.git\<close>.
\<close>

definition ex_prune_fs :: node where
  "ex_prune_fs = Dir [(''repo'', Dir [(''empty1'', Dir [(''empty2'', Dir [])])])]"

definition ex_ignored_fs :: node where
  "ex_ignored_fs = Dir [(''repo'', Dir [(''.git'', Dir [(''refs'', Dir [])]), (''vimrc'', File)])]"



section \<open>Properties of the path operations\<close>

lemma lcp_append_right: "longest_common_prefix xs (xs @ ys) = xs"
  by (induction xs) auto

lemma lcp_append_left: "longest_common_prefix (xs @ ys) xs = xs"
  by (induction xs) auto

lemma sepjoin_Cons_Cons: "sepjoin ((c # s) # rest) = c # sepjoin (s # rest)"
  by (cases rest) auto

lemma bestrelpath_below: "rel \<noteq> [] \<Longrightarrow> bestrelpath p (p @ rel) = sepjoin rel"
  by (simp add: bestrelpath_def relto_def lcp_append_right Let_def)

lemma bestrelpath_self: "bestrelpath p p = ''.''"
  by (simp add: bestrelpath_def)

lemma splitsep_nosep: "CHR ''/'' \<notin> set s \<Longrightarrow> splitsep s = [s]"
  by (induction s) auto

lemma splitsep_app: "CHR ''/'' \<notin> set s \<Longrightarrow> splitsep (s @ CHR ''/'' # t) = s # splitsep t"
  by (induction s) auto

lemma splitsep_sepjoin:
  "rel \<noteq> [] \<Longrightarrow> list_all (\<lambda>s. CHR ''/'' \<notin> set s) rel \<Longrightarrow> splitsep (sepjoin rel) = rel"
  by (induction rel rule: sepjoin.induct) (auto simp: splitsep_nosep splitsep_app)

lemma strip_sep_id: "s \<noteq> [] \<Longrightarrow> hd s \<noteq> CHR ''/'' \<Longrightarrow> last s \<noteq> CHR ''/'' \<Longrightarrow> strip_sep s = s"
proof -
  assume a: "s \<noteq> []" "hd s \<noteq> CHR ''/''" "last s \<noteq> CHR ''/''"
  then have 1: "dropWhile (\<lambda>c. c = CHR ''/'') s = s" by (cases s) auto
  from a have "hd (rev s) \<noteq> CHR ''/''" by (simp add: hd_rev)
  with a have 2: "dropWhile (\<lambda>c. c = CHR ''/'') (rev s) = rev s" by (cases "rev s") auto
  show ?thesis by (simp add: strip_sep_def 1 2)
qed

lemma strip_sep_Nil: "strip_sep [] = []"
  by (simp add: strip_sep_def)


lemma sepjoin_valid:
  "rel \<noteq> [] \<Longrightarrow> list_all (\<lambda>s. s \<noteq> []) rel \<Longrightarrow>
     sepjoin rel \<noteq> [] \<and> hd (sepjoin rel) = hd (hd rel) \<and> last (sepjoin rel) = last (last rel)"
  by (induction rel rule: sepjoin.induct) auto

lemma valid_seg_simps:
  "valid_seg s \<Longrightarrow> s \<noteq> []"
  "valid_seg s \<Longrightarrow> CHR ''/'' \<notin> set s"
  "valid_seg s \<Longrightarrow> s \<noteq> ''.''"
  "valid_seg s \<Longrightarrow> s \<noteq> ''..''"
  by (simp_all add: valid_seg_def)

lemma norm_comp_valid: "valid_seg s \<Longrightarrow> norm_comp acc s = acc @ [s]"
  unfolding norm_comp_def valid_seg_def by simp

lemma foldl_norm_comp_valid: "valid_path q \<Longrightarrow> foldl norm_comp acc q = acc @ q"
  by (induction q arbitrary: acc) (simp_all add: valid_path_def norm_comp_valid)

lemma normpath_valid: "valid_path p \<Longrightarrow> normpath p = p"
  by (simp add: normpath_def foldl_norm_comp_valid)

lemma valid_path_append: "valid_path (p @ q) = (valid_path p \<and> valid_path q)"
  by (simp add: valid_path_def)

lemma valid_path_nosep: "valid_path rel \<Longrightarrow> list_all (\<lambda>s. CHR ''/'' \<notin> set s) rel"
  by (induction rel) (simp_all add: valid_path_def valid_seg_def)

lemma valid_path_nonempty: "valid_path rel \<Longrightarrow> list_all (\<lambda>s. s \<noteq> []) rel"
  by (induction rel) (simp_all add: valid_path_def valid_seg_def)

lemma hd_nosep: "s \<noteq> [] \<Longrightarrow> CHR ''/'' \<notin> set s \<Longrightarrow> hd s \<noteq> CHR ''/''"
  by (cases s) auto

lemma last_nosep: "s \<noteq> [] \<Longrightarrow> CHR ''/'' \<notin> set s \<Longrightarrow> last s \<noteq> CHR ''/''"
  using last_in_set[of s] by metis

lemma hd_valid_seg: "valid_seg s \<Longrightarrow> hd s \<noteq> CHR ''/''"
  by (simp add: valid_seg_def hd_nosep)

lemma last_valid_seg: "valid_seg s \<Longrightarrow> last s \<noteq> CHR ''/''"
  by (simp add: valid_seg_def last_nosep)

lemma strip_sep_sepjoin:
  assumes "rel \<noteq> []" "list_all (\<lambda>s. s \<noteq> []) rel"
    and "hd (hd rel) \<noteq> CHR ''/''" "last (last rel) \<noteq> CHR ''/''"
  shows "strip_sep (sepjoin rel) = sepjoin rel"
  using sepjoin_valid[OF assms(1,2)] assms(3,4) by (intro strip_sep_id) simp_all

lemma join_sepjoin:
  assumes "valid_path p" "valid_path rel" "rel \<noteq> []"
  shows "join p (sepjoin rel) = p @ rel"
proof -
  have "valid_seg (hd rel)" "valid_seg (last rel)"
    using assms(2,3) by (simp_all add: valid_path_def list_all_iff)
  then have "hd (hd rel) \<noteq> CHR ''/''" "last (last rel) \<noteq> CHR ''/''"
    by (simp_all add: hd_valid_seg last_valid_seg)
  then have "strip_sep (sepjoin rel) = sepjoin rel"
    using assms(2,3) by (simp add: strip_sep_sepjoin valid_path_nonempty)
  then show ?thesis
    using assms by (simp add: join_def splitsep_sepjoin valid_path_nosep normpath_valid valid_path_append)
qed

lemma join_dot: "valid_path p \<Longrightarrow> join p ''.'' = p"
  by (simp add: join_def strip_sep_def normpath_def foldl_norm_comp_valid norm_comp_def)

lemma join_empty: "valid_path p \<Longrightarrow> join p [] = p"
  by (simp add: join_def strip_sep_def normpath_def foldl_norm_comp_valid norm_comp_def)

lemma join_dotdot: "valid_path p \<Longrightarrow> join p ''..'' = butlast p"
  by (simp add: join_def strip_sep_def normpath_def foldl_norm_comp_valid norm_comp_def)

lemma target_to_name_below:
  assumes "valid_path (homedir r)" "valid_path rel" "rel \<noteq> []"
  shows "target_to_name r (repodir r @ rel) =
           (if dot r then homedir r @ rel else homedir r @ (CHR ''.'' # hd rel) # tl rel)"
proof (cases "dot r")
  case True
  then show ?thesis using assms by (simp add: target_to_name_def bestrelpath_below join_sepjoin)
next
  case False
  obtain s rest where rel: "rel = s # rest" using assms(3) by (cases rel) auto
  have s: "valid_seg s" and rest: "valid_path rest" using assms(2) rel by (simp_all add: valid_path_def)
  have "valid_seg (CHR ''.'' # s)" using s by (auto simp: valid_seg_def)
  then have v: "valid_path ((CHR ''.'' # s) # rest)" using rest by (simp add: valid_path_def)
  have "CHR ''.'' # sepjoin rel = sepjoin ((CHR ''.'' # s) # rest)"
    by (simp add: rel sepjoin_Cons_Cons)
  then show ?thesis
    using False assms(1,3) v by (simp add: target_to_name_def bestrelpath_below join_sepjoin rel)
qed

lemma name_to_target_below_dot:
  assumes "dot r" "valid_path (repodir r)" "valid_path rel" "rel \<noteq> []"
  shows "name_to_target r (homedir r @ rel) = repodir r @ rel"
  using assms by (simp add: name_to_target_def bestrelpath_below join_sepjoin)

lemma name_to_target_first_char:
  assumes "\<not> dot r"
  shows "name_to_target r (homedir r @ (c # s) # rest) = join (repodir r) (sepjoin (s # rest))"
  using assms by (simp add: name_to_target_def bestrelpath_below sepjoin_Cons_Cons)

lemma target_to_name_root:
  assumes "valid_path (homedir r)"
  shows "target_to_name r (repodir r) = (if dot r then homedir r else butlast (homedir r))"
  using assms by (simp add: target_to_name_def bestrelpath_self join_dot join_dotdot)

lemma bestrelpath_parent:
  assumes "valid_path (q @ [s])"
  shows "bestrelpath (q @ [s]) q = ''..''"
proof -
  have vs: "valid_seg s" using assms by (simp add: valid_path_def)
  have r1: "relto (q @ [s]) q = s" by (simp add: relto_def)
  have r2: "relto q q = []" by (simp add: relto_def)
  have cnt: "count_list s CHR ''/'' = 0" using vs by (simp add: valid_seg_def)
  have ne: "s \<noteq> []" using vs by (simp add: valid_seg_def)
  show ?thesis
    unfolding bestrelpath_def Let_def lcp_append_left r1 r2 cnt using ne by simp
qed

lemma name_to_target_root:
  assumes "valid_path (repodir r)"
  shows "name_to_target r (homedir r) = repodir r"
  using assms by (simp add: name_to_target_def bestrelpath_self join_dot join_empty Let_def)

lemma name_to_target_parent:
  assumes "\<not> dot r" "valid_path (repodir r)" "valid_path (homedir r)"
  shows "name_to_target r (butlast (homedir r)) = repodir r"
proof (cases "homedir r" rule: rev_cases)
  case Nil
  then show ?thesis using name_to_target_root[OF assms(2)] by simp
next
  case (snoc q s)
  then show ?thesis
    using assms bestrelpath_parent[of q s] by (simp add: name_to_target_def join_dot)
qed

lemma valid_seg_undot:
  assumes "valid_seg (CHR ''.'' # s)" "s \<noteq> ''..''"
  shows "valid_seg s"
  using assms by (auto simp: valid_seg_def)

section \<open>Properties of glob matching\<close>

text \<open>
  For a root without glob characters the test \<open>rooted_in\<close> is containment: the path lies
  strictly below the root. (Below the root \<^verbatim>\<open>/\<close> itself the pattern is \<^verbatim>\<open>//*\<close>, which no
  normalised path matches.)
\<close>

definition sp :: "path \<Rightarrow> string" where
  "sp p = concat (map (\<lambda>s. CHR ''/'' # s) p)"

lemma fnmatch_glob_star: "fnmatch_glob t ''*''"
  by (induction t) simp_all

lemma fnmatch_glob_literal:
  "glob_free lit \<Longrightarrow> fnmatch_glob s (lit @ p) = (\<exists>t. s = lit @ t \<and> fnmatch_glob t p)"
proof (induction lit arbitrary: s)
  case Nil
  then show ?case by simp
next
  case (Cons c lit)
  then have c: "c \<noteq> CHR ''*''" "c \<noteq> CHR ''?''" "c \<noteq> CHR ''[''" and gf: "glob_free lit"
    by (simp_all add: glob_free_def)
  show ?case
  proof (cases s)
    case Nil
    then show ?thesis using c by simp
  next
    case (Cons d t)
    then show ?thesis using c Cons.IH[OF gf, of t] by auto
  qed
qed

lemma fnmatch_glob_sep_star: "fnmatch_glob t ''/*'' = (\<exists>u. t = CHR ''/'' # u)"
  by (cases t) (auto simp: fnmatch_glob_star)

lemma fnmatch_glob_prefix:
  "glob_free lit \<Longrightarrow> fnmatch_glob s (lit @ ''/*'') = prefix (lit @ ''/'') s"
  by (auto simp: fnmatch_glob_literal fnmatch_glob_sep_star prefix_def)

lemma strpath_hd: "take 1 (strpath p) = ''/''"
  by (cases p) (simp_all add: strpath_def)

lemma strpath_sep: "CHR ''/'' \<in> set (strpath p)"
  by (cases p) (simp_all add: strpath_def)

lemma rooted_in_prefix:
  "glob_free (strpath root) \<Longrightarrow> rooted_in root nm = prefix (strpath root @ ''/'') (strpath nm)"
proof -
  assume gf: "glob_free (strpath root)"
  have "take 1 (strpath root @ ''/*'') = ''/''"
    using strpath_hd[of root] by (cases "strpath root") simp_all
  then show ?thesis
    using strpath_sep[of root] by (simp add: fnmatch_def fnmatch_glob_prefix[OF gf])
qed

lemma seg_prefix:
  assumes "CHR ''/'' \<notin> set a" "CHR ''/'' \<notin> set b"
    and "X \<noteq> []" "hd X = CHR ''/''" "Y = [] \<or> hd Y = CHR ''/''"
    and "prefix (a @ X) (b @ Y)"
  shows "a = b \<and> prefix X Y"
  using assms
proof (induction a arbitrary: b)
  case Nil
  show ?case
  proof (cases b)
    case Nil
    then show ?thesis using Nil.prems by simp
  next
    case (Cons d b')
    then have "hd X = d" using Nil.prems(3,6) by (cases X) auto
    then show ?thesis using Nil.prems(2,4) Cons by auto
  qed
next
  case (Cons c a)
  show ?case
  proof (cases b)
    case Nil
    then have "Y \<noteq> [] \<and> hd Y = c" using Cons.prems(6) by (cases Y) auto
    then show ?thesis using Cons.prems(1,5) by auto
  next
    case (Cons d b')
    then show ?thesis using Cons.prems Cons.IH[of b'] by auto
  qed
qed

lemma sp_head: "sp p = [] \<or> hd (sp p) = CHR ''/''"
  by (cases p) (simp_all add: sp_def)

lemma prefix_sp_strict:
  assumes "list_all (\<lambda>s. CHR ''/'' \<notin> set s) root" "list_all (\<lambda>s. CHR ''/'' \<notin> set s) nm"
    and "prefix (sp root @ ''/'') (sp nm)"
  shows "strict_prefix root nm"
  using assms
proof (induction root arbitrary: nm)
  case Nil
  then have "nm \<noteq> []" by (auto simp: sp_def)
  then show ?case by (simp add: strict_prefix_def)
next
  case (Cons a root)
  show ?case
  proof (cases nm)
    case Nil
    then show ?thesis using Cons.prems(3) by (simp add: sp_def)
  next
    case (Cons b nm')
    have p: "prefix (a @ (sp root @ ''/'')) (b @ sp nm')"
      using Cons.prems(3) Cons by (simp add: sp_def)
    have h: "hd (sp root @ ''/'') = CHR ''/''"
      using sp_head[of root] by (cases "sp root") auto
    have "a = b \<and> prefix (sp root @ ''/'') (sp nm')"
      using Cons.prems(1,2) Cons h sp_head[of nm'] p
      by (intro seg_prefix) simp_all
    then show ?thesis
      using Cons.IH[of nm'] Cons.prems(1,2) Cons by (simp add: strict_prefix_def)
  qed
qed

lemma strict_prefix_sp:
  assumes "strict_prefix root nm"
  shows "prefix (sp root @ ''/'') (sp nm)"
proof -
  obtain s rest where "nm = root @ s # rest"
    using assms by (metis strict_prefixE' )
  then show ?thesis by (simp add: sp_def)
qed

lemma strpath_sp: "p \<noteq> [] \<Longrightarrow> strpath p = sp p"
  by (simp add: strpath_def sp_def)

lemma rooted_in_iff_below:
  assumes "glob_free (strpath root)" "valid_path root" "root \<noteq> []" "valid_path nm"
  shows "rooted_in root nm = strict_prefix root nm"
proof (cases "nm = []")
  case True
  obtain a root' where "root = a # root'" using assms(3) by (cases root) auto
  then have "\<not> prefix (strpath root @ ''/'') ''/''" by (simp add: strpath_def)
  moreover have "strpath nm = ''/''" using True by (simp add: strpath_def)
  ultimately have "\<not> rooted_in root nm" using assms(1) by (simp add: rooted_in_prefix)
  then show ?thesis using True by simp
next
  case False
  have "prefix (sp root @ ''/'') (sp nm) = strict_prefix root nm"
    using prefix_sp_strict[of root nm] strict_prefix_sp[of root nm] assms(2,4)
    by (auto simp: valid_path_nosep)
  moreover have "rooted_in root nm = prefix (sp root @ ''/'') (sp nm)"
    using rooted_in_prefix[OF assms(1), of nm] False assms(3) by (simp add: strpath_sp)
  ultimately show ?thesis by simp
qed

section \<open>Properties of the walk\<close>

lemma lookup_append:
  "lookup fs (p @ q) = (case lookup fs p of None \<Rightarrow> None | Some n \<Rightarrow> lookup n q)"
  by (induction fs p rule: lookup.induct) (auto split: option.splits)

lemma lookup_below_file: "rel \<noteq> [] \<Longrightarrow> lookup File rel = None"
  by (cases rel) simp_all

lemma strict_prefix_Cons_iff:
  "(pre \<noteq> [] \<and> strict_prefix pre (n # rel)) = (\<exists>zs. pre = n # zs \<and> strict_prefix zs rel)"
  by (cases pre) auto

lemma gen_set:
  "set (gen fs fil recf p) =
     {p @ rel | rel. rel \<noteq> [] \<and> lookup fs (p @ rel) \<noteq> None \<and> fil (p @ rel)
                  \<and> (\<forall>pre. pre \<noteq> [] \<and> strict_prefix pre rel \<longrightarrow> recf (p @ pre))}"
proof (induction fs fil recf p rule: gen.induct)
  case (1 fs fil recf p)
  show ?case
  proof (cases "listdir fs p")
    case None
    then have "\<And>rel. rel \<noteq> [] \<Longrightarrow> lookup fs (p @ rel) = None"
      by (auto simp: listdir_def lookup_append lookup_below_file split: option.splits node.splits)
    then show ?thesis using None by (auto simp: gen.simps[of fs fil recf p])
  next
    case (Some entries)
    then obtain es where es: "lookup fs p = Some (Dir es)"
      and entries: "entries = map (\<lambda>n. p @ [n]) (map fst es)"
      by (auto simp: listdir_def split: option.splits node.splits)
    let ?dirs = "filter (\<lambda>q. check_dir fs q \<and> recf q) entries"
    have IH: "\<And>d. d \<in> set ?dirs \<Longrightarrow> set (gen fs fil recf d) =
       {d @ rel | rel. rel \<noteq> [] \<and> lookup fs (d @ rel) \<noteq> None \<and> fil (d @ rel)
                  \<and> (\<forall>pre. pre \<noteq> [] \<and> strict_prefix pre rel \<longrightarrow> recf (d @ pre))}"
      using "1.IH"[OF Some refl] by simp
    have unfold: "set (gen fs fil recf p) =
        (\<Union>d \<in> set ?dirs. set (gen fs fil recf d)) \<union> {q \<in> set entries. fil q}"
      using Some by (auto simp: gen.simps[of fs fil recf p])
    have in_entries: "\<And>n. (p @ [n] \<in> set entries) = (map_of es n \<noteq> None)"
      by (auto simp: entries map_of_eq_None_iff image_iff)
    have look1: "\<And>n rel. lookup fs (p @ n # rel) =
        (case map_of es n of None \<Rightarrow> None | Some c \<Rightarrow> lookup c rel)"
      by (simp add: lookup_append es)
    show ?thesis
    proof (intro set_eqI iffI)
      fix q assume "q \<in> set (gen fs fil recf p)"
      then consider (sub) d where "d \<in> set ?dirs" "q \<in> set (gen fs fil recf d)"
        | (here) "q \<in> set entries" "fil q"
        unfolding unfold by blast
      then show "q \<in> {p @ rel | rel. rel \<noteq> [] \<and> lookup fs (p @ rel) \<noteq> None \<and> fil (p @ rel)
                  \<and> (\<forall>pre. pre \<noteq> [] \<and> strict_prefix pre rel \<longrightarrow> recf (p @ pre))}"
      proof cases
        case sub
        then obtain n where d: "d = p @ [n]" and rd: "recf d" by (auto simp: entries)
        from sub(2) IH[OF sub(1)] obtain rel where rel: "q = d @ rel" "rel \<noteq> []"
          "lookup fs (d @ rel) \<noteq> None" "fil (d @ rel)"
          "\<forall>pre. pre \<noteq> [] \<and> strict_prefix pre rel \<longrightarrow> recf (d @ pre)" by blast
        have "\<forall>pre. pre \<noteq> [] \<and> strict_prefix pre (n # rel) \<longrightarrow> recf (p @ pre)"
        proof (intro allI impI)
          fix pre assume a: "pre \<noteq> [] \<and> strict_prefix pre (n # rel)"
          then obtain zs where zs: "pre = n # zs" "strict_prefix zs rel"
            using strict_prefix_Cons_iff[of pre n rel] by blast
          show "recf (p @ pre)"
          proof (cases "zs = []")
            case True
            then show ?thesis using rd d zs by simp
          next
            case False
            then show ?thesis using rel(5) zs d by simp
          qed
        qed
        then show ?thesis using rel d by (intro CollectI exI[of _ "n # rel"]) simp
      next
        case here
        then obtain n where n: "q = p @ [n]" by (auto simp: entries)
        then have "lookup fs (p @ [n]) \<noteq> None"
          using here(1) in_entries[of n] look1[of n "[]"] by (auto split: option.splits)
        then show ?thesis using here(2) n
          using strict_prefix_Cons_iff[of _ n "[]"]
          by (intro CollectI exI[of _ "[n]"]) auto
      qed
    next
      fix q assume "q \<in> {p @ rel | rel. rel \<noteq> [] \<and> lookup fs (p @ rel) \<noteq> None \<and> fil (p @ rel)
                  \<and> (\<forall>pre. pre \<noteq> [] \<and> strict_prefix pre rel \<longrightarrow> recf (p @ pre))}"
      then obtain rel where rel: "q = p @ rel" "rel \<noteq> []" "lookup fs (p @ rel) \<noteq> None"
        "fil (p @ rel)" "\<forall>pre. pre \<noteq> [] \<and> strict_prefix pre rel \<longrightarrow> recf (p @ pre)" by blast
      then obtain n rel' where nrel: "rel = n # rel'" by (cases rel) auto
      then obtain c where c: "map_of es n = Some c" "lookup c rel' \<noteq> None"
        using rel(3) look1[of n rel'] by (auto split: option.splits)
      have ent: "p @ [n] \<in> set entries" using in_entries[of n] c by simp
      show "q \<in> set (gen fs fil recf p)"
      proof (cases "rel' = []")
        case True
        then show ?thesis unfolding unfold using ent rel nrel by simp
      next
        case False
        then obtain es' where "c = Dir es'" using c(2) by (cases c) (simp_all add: lookup_below_file)
        then have cd: "check_dir fs (p @ [n])"
          using look1[of n "[]"] c by (simp add: check_dir_def)
        have "strict_prefix [n] rel" using nrel False by (cases rel') simp_all
        then have "recf (p @ [n])" using rel(5) by blast
        then have d: "p @ [n] \<in> set ?dirs" using ent cd by simp
        have "\<forall>pre. pre \<noteq> [] \<and> strict_prefix pre rel' \<longrightarrow> recf ((p @ [n]) @ pre)"
        proof (intro allI impI)
          fix pre assume "pre \<noteq> [] \<and> strict_prefix pre rel'"
          then have "strict_prefix (n # pre) rel" by (simp add: nrel)
          then show "recf ((p @ [n]) @ pre)" using rel(5) by (metis append.assoc append_Cons append_Nil list.distinct(1))
        qed
        then have "q \<in> set (gen fs fil recf (p @ [n]))"
          unfolding IH[OF d] using rel nrel False by (intro CollectI exI[of _ rel']) simp
        then show ?thesis unfolding unfold using d by blast
      qed
    qed
  qed
qed

lemma unignored_prefixes:
  "(last rel \<notin> S \<and> (\<forall>pre. pre \<noteq> [] \<and> strict_prefix pre rel \<longrightarrow> last pre \<notin> S))
     = (\<forall>s \<in> set rel. s \<notin> S)" if "rel \<noteq> []"
proof
  assume a: "last rel \<notin> S \<and> (\<forall>pre. pre \<noteq> [] \<and> strict_prefix pre rel \<longrightarrow> last pre \<notin> S)"
  show "\<forall>s \<in> set rel. s \<notin> S"
  proof
    fix s assume "s \<in> set rel"
    then obtain xs ys where xy: "rel = xs @ s # ys" by (meson split_list)
    show "s \<notin> S"
    proof (cases "ys = []")
      case True
      then show ?thesis using a xy by simp
    next
      case False
      then have "strict_prefix (xs @ [s]) rel" using xy by (simp add: strict_prefix_def prefix_def)
      then show ?thesis using a by (metis last_snoc snoc_eq_iff_butlast)
    qed
  qed
next
  assume a: "\<forall>s \<in> set rel. s \<notin> S"
  have "\<And>pre. pre \<noteq> [] \<Longrightarrow> prefix pre rel \<Longrightarrow> last pre \<in> set rel"
    by (metis last_in_set set_mono_prefix subsetD)
  then show "last rel \<notin> S \<and> (\<forall>pre. pre \<noteq> [] \<and> strict_prefix pre rel \<longrightarrow> last pre \<notin> S)"
    using a that by (auto simp: strict_prefix_def)
qed

lemma lookup_not_dir:
  "(lookup fs q \<noteq> None \<and> \<not> check_dir fs q) = (lookup fs q = Some File)"
  by (auto simp: check_dir_def split: option.splits node.splits)

lemma contents_in_set:
  "set (contents_in r fs p) =
     {p @ rel | rel. rel \<noteq> [] \<and> lookup fs (p @ rel) = Some File \<and> (\<forall>s \<in> set rel. s \<notin> set (ignore r))}"
proof -
  have "\<And>rel. rel \<noteq> [] \<Longrightarrow>
      (lookup fs (p @ rel) \<noteq> None \<and> (\<not> check_dir fs (p @ rel) \<and> basename (p @ rel) \<notin> set (ignore r))
        \<and> (\<forall>pre. pre \<noteq> [] \<and> strict_prefix pre rel \<longrightarrow> basename (p @ pre) \<notin> set (ignore r)))
      = (lookup fs (p @ rel) = Some File \<and> (\<forall>s \<in> set rel. s \<notin> set (ignore r)))"
  proof -
    fix rel :: path assume ne: "rel \<noteq> []"
    have b: "basename (p @ rel) = last rel" using ne by (simp add: basename_def)
    have "(\<forall>pre. pre \<noteq> [] \<and> strict_prefix pre rel \<longrightarrow> basename (p @ pre) \<notin> set (ignore r))
        = (\<forall>pre. pre \<noteq> [] \<and> strict_prefix pre rel \<longrightarrow> last pre \<notin> set (ignore r))"
      by (auto simp: basename_def)
    then show "(lookup fs (p @ rel) \<noteq> None \<and> (\<not> check_dir fs (p @ rel) \<and> basename (p @ rel) \<notin> set (ignore r))
        \<and> (\<forall>pre. pre \<noteq> [] \<and> strict_prefix pre rel \<longrightarrow> basename (p @ pre) \<notin> set (ignore r)))
      = (lookup fs (p @ rel) = Some File \<and> (\<forall>s \<in> set rel. s \<notin> set (ignore r)))"
      using unignored_prefixes[OF ne, of "set (ignore r)"] lookup_not_dir[of fs "p @ rel"] b
      by auto
  qed
  then show ?thesis unfolding contents_in_def gen_set by blast
qed

section \<open>Properties of the bulk resolution\<close>

lemma map_construct_eq:
  "map_construct r fs ps out =
     (map (\<lambda>p. case dotfile r fs p of Inr d \<Rightarrow> Some d | Inl err \<Rightarrow> None) ps,
      out @ concat (map (\<lambda>p. case dotfile r fs p of Inr d \<Rightarrow> [] | Inl err \<Rightarrow> [err]) ps))"
  by (induction ps arbitrary: out) (auto simp: construct_def split: sum.splits)

lemma successes_eq:
  "map the (filter (\<lambda>d. d \<noteq> None)
      (map (\<lambda>p. case dotfile r fs p of Inr d \<Rightarrow> Some d | Inl err \<Rightarrow> None) ps))
   = concat (map (\<lambda>p. case dotfile r fs p of Inr d \<Rightarrow> [d] | Inl err \<Rightarrow> []) ps)"
  by (induction ps) (auto split: sum.splits)

lemma successes_and_errors_length:
  "length (concat (map (\<lambda>p. case dotfile r fs p of Inr d \<Rightarrow> [d] | Inl err \<Rightarrow> []) ps))
   + length (concat (map (\<lambda>p. case dotfile r fs p of Inr d \<Rightarrow> [] | Inl err \<Rightarrow> [err]) ps))
   = length ps"
  by (induction ps) (auto split: sum.splits)

section \<open>Properties of pruning\<close>

subsection \<open>The pruned tree\<close>

lemma map_of_filter_map:
  "distinct (map fst es) \<Longrightarrow>
     map_of (filter P (map (\<lambda>(n, c). (n, g n c)) es)) k =
       (case map_of es k of None \<Rightarrow> None
        | Some c \<Rightarrow> if P (k, g k c) then Some (g k c) else None)"
proof (induction es)
  case Nil
  then show ?case by simp
next
  case (Cons e es)
  obtain n c where e: "e = (n, c)" by (cases e)
  show ?case
  proof (cases "n = k")
    case True
    then have "map_of es k = None" using Cons.prems e by (simp add: map_of_eq_None_iff)
    then show ?thesis using Cons e True by simp
  next
    case False
    then show ?thesis using Cons e by simp
  qed
qed

lemma isdir_prune_walk: "isdir (prune_walk r c) = isdir c"
  by (cases c) (simp_all add: isdir_def Let_def)


lemma prune_walk_entries:
  "prune_walk r (Dir es) =
     Dir (filter (\<lambda>(n, c). \<not> (isdir c \<and> n \<notin> set (ignore r) \<and> c = Dir []))
           (map (\<lambda>(n, c). (n, if isdir c \<and> n \<notin> set (ignore r) then prune_walk r c else c)) es))"
proof -
  have "(\<lambda>(n, c). if isdir c \<and> n \<notin> set (ignore r) then (n, prune_walk r c) else (n, c))
      = (\<lambda>(n, c). (n, if isdir c \<and> n \<notin> set (ignore r) then prune_walk r c else c))"
    by auto
  then show ?thesis by (simp add: Let_def)
qed

declare prune_walk.simps(2) [simp del]

lemma lookup_prune_walk_Cons:
  assumes "distinct (map fst es)"
  shows "lookup (prune_walk r (Dir es)) (n # rel) =
     (case map_of es n of None \<Rightarrow> None
      | Some c \<Rightarrow>
          if isdir c \<and> n \<notin> set (ignore r)
          then (if prune_walk r c = Dir [] then None else lookup (prune_walk r c) rel)
          else lookup c rel)"
  unfolding prune_walk_entries lookup.simps
  by (simp add: map_of_filter_map[OF assms] isdir_prune_walk split: option.splits)

lemma wf_child: "wf_node (Dir es) \<Longrightarrow> map_of es n = Some c \<Longrightarrow> wf_node c"
  by (auto simp: list_all_iff dest: map_of_SomeD)

lemma prune_walk_keeps_ignored:
  "wf_node d \<Longrightarrow> \<exists>s \<in> set rel. s \<in> set (ignore r) \<Longrightarrow>
     lookup (prune_walk r d) rel = lookup d rel"
proof (induction rel arbitrary: d)
  case Nil
  then show ?case by simp
next
  case (Cons n rel)
  show ?case
  proof (cases d)
    case File
    then show ?thesis by simp
  next
    case (Dir es)
    then have dist: "distinct (map fst es)" using Cons.prems(1) by simp
    show ?thesis
    proof (cases "map_of es n")
      case None
      then show ?thesis using Dir by (simp add: lookup_prune_walk_Cons[OF dist])
    next
      case (Some c)
      have wfc: "wf_node c" using wf_child Cons.prems(1) Dir Some by blast
      show ?thesis
      proof (cases "isdir c \<and> n \<notin> set (ignore r)")
        case True
        then have ex: "\<exists>s \<in> set rel. s \<in> set (ignore r)" using Cons.prems(2) by auto
        then have rel: "rel \<noteq> []" by auto
        have IH: "lookup (prune_walk r c) rel = lookup c rel" using Cons.IH[OF wfc ex] .
        have "prune_walk r c = Dir [] \<Longrightarrow> lookup c rel = None"
          using IH rel by (cases rel) auto
        then show ?thesis
          using Dir Some True IH by (auto simp: lookup_prune_walk_Cons[OF dist])
      next
        case False
        then show ?thesis using Dir Some by (auto simp: lookup_prune_walk_Cons[OF dist])
      qed
    qed
  qed
qed

lemma prune_walk_no_empty:
  "wf_node d \<Longrightarrow> rel \<noteq> [] \<Longrightarrow> \<forall>s \<in> set rel. s \<notin> set (ignore r) \<Longrightarrow>
     lookup (prune_walk r d) rel \<noteq> Some (Dir [])"
proof (induction rel arbitrary: d)
  case Nil
  then show ?case by simp
next
  case (Cons n rel)
  show ?case
  proof (cases d)
    case File
    then show ?thesis by simp
  next
    case (Dir es)
    then have dist: "distinct (map fst es)" using Cons.prems(1) by simp
    show ?thesis
    proof (cases "map_of es n")
      case None
      then show ?thesis using Dir by (simp add: lookup_prune_walk_Cons[OF dist])
    next
      case (Some c)
      have wfc: "wf_node c" using wf_child Cons.prems(1) Dir Some by blast
      have n: "n \<notin> set (ignore r)" using Cons.prems(3) by simp
      show ?thesis
      proof (cases c)
        case File
        then have "lookup c rel \<noteq> Some (Dir [])" by (cases rel) simp_all
        then show ?thesis using Dir Some File by (simp add: lookup_prune_walk_Cons[OF dist] isdir_def)
      next
        case (Dir es')
        then have d: "isdir c" by (simp add: isdir_def)
        have "prune_walk r c \<noteq> Dir [] \<Longrightarrow> lookup (prune_walk r c) rel \<noteq> Some (Dir [])"
        proof (cases "rel = []")
          case True
          assume "prune_walk r c \<noteq> Dir []"
          then show ?thesis using True by simp
        next
          case False
          then show ?thesis using Cons.IH[OF wfc False] Cons.prems(3) by simp
        qed
        then show ?thesis
          using \<open>d = Dir es\<close> Some d n by (auto simp: lookup_prune_walk_Cons[OF dist])
      qed
    qed
  qed
qed

lemma map_of_update_entry:
  "map_of (map (\<lambda>(k, c). if k = s then (k, g c) else (k, c)) es) s = map_option g (map_of es s)"
  by (induction es) auto

lemma lookup_update_at:
  "lookup (update_at fs p f) (p @ rel) =
     (case lookup fs p of None \<Rightarrow> None | Some n \<Rightarrow> lookup (f n) rel)"
proof (induction fs p f rule: update_at.induct)
  case (1 n f)
  then show ?case by simp
next
  case (2 s p f)
  then show ?case by simp
next
  case (3 es s p f)
  show ?case
  proof (cases "map_of es s")
    case None
    then show ?thesis by (simp add: map_of_update_entry)
  next
    case (Some c)
    then have "(s, c) \<in> set es" by (rule map_of_SomeD)
    then show ?thesis using Some 3 by (simp add: map_of_update_entry)
  qed
qed

lemma wf_lookup: "wf_node fs \<Longrightarrow> lookup fs p = Some n \<Longrightarrow> wf_node n"
proof (induction fs p rule: lookup.induct)
  case (1 n)
  then show ?case by simp
next
  case (2 s p)
  then show ?case by simp
next
  case (3 es s p)
  show ?case
  proof (cases "map_of es s")
    case None
    then show ?thesis using 3 by simp
  next
    case (Some c)
    then have "wf_node c" using wf_child "3.prems"(1) by blast
    then show ?thesis using 3 Some by simp
  qed
qed

subsection \<open>Updates of the tree\<close>

lemma update_at_append:
  "update_at s (p @ q) f = update_at s p (\<lambda>T. update_at T q f)"
proof (induction p arbitrary: s)
  case Nil
  then show ?case by simp
next
  case (Cons a p)
  then show ?case by (cases s) auto
qed

lemma update_at_comp:
  "update_at (update_at s p f) p g = update_at s p (\<lambda>T. g (f T))"
proof (induction p arbitrary: s)
  case Nil
  then show ?case by simp
next
  case (Cons a p)
  show ?case
  proof (cases s)
    case File
    then show ?thesis by simp
  next
    case (Dir es)
    have "map (\<lambda>(k, c). if k = a then (k, update_at c p g) else (k, c))
            (map (\<lambda>(k, c). if k = a then (k, update_at c p f) else (k, c)) es)
        = map (\<lambda>(k, c). if k = a then (k, update_at c p (\<lambda>T. g (f T))) else (k, c)) es"
      using Cons.IH by (induction es) auto
    then show ?thesis using Dir by simp
  qed
qed

lemma map_of_distinct_entry:
  "distinct (map fst es) \<Longrightarrow> (k, c) \<in> set es \<Longrightarrow> map_of es k = Some c"
  by simp

lemma update_at_cong:
  "wf_node s \<Longrightarrow> lookup s p = Some T \<Longrightarrow> f T = g T \<Longrightarrow> update_at s p f = update_at s p g"
proof (induction p arbitrary: s)
  case Nil
  then show ?case by simp
next
  case (Cons a p)
  show ?case
  proof (cases s)
    case File
    then show ?thesis by simp
  next
    case (Dir es)
    have "\<And>k c. (k, c) \<in> set es \<Longrightarrow> k = a \<Longrightarrow> update_at c p f = update_at c p g"
    proof -
      fix k c assume kc: "(k, c) \<in> set es" "k = a"
      then have m: "map_of es a = Some c" using Cons.prems(1) Dir by simp
      then have "wf_node c" using wf_child Cons.prems(1) Dir by blast
      moreover have "lookup c p = Some T" using Cons.prems(2) Dir m by simp
      ultimately show "update_at c p f = update_at c p g" using Cons.IH Cons.prems(3) by blast
    qed
    then have "map (\<lambda>(k, c). if k = a then (k, update_at c p f) else (k, c)) es
             = map (\<lambda>(k, c). if k = a then (k, update_at c p g) else (k, c)) es"
      by (intro map_cong) auto
    then show ?thesis using Dir by simp
  qed
qed

lemma update_at_ident: "update_at s p (\<lambda>T. T) = s"
proof (induction p arbitrary: s)
  case Nil
  then show ?case by simp
next
  case (Cons a p)
  show ?case
  proof (cases s)
    case File
    then show ?thesis by simp
  next
    case (Dir es)
    have "map (\<lambda>(k, c). if k = a then (k, update_at c p (\<lambda>T. T)) else (k, c)) es = es"
      using Cons.IH by (induction es) auto
    then show ?thesis using Dir by simp
  qed
qed

lemma update_at_same:
  "wf_node s \<Longrightarrow> lookup s p = Some T \<Longrightarrow> f T = T \<Longrightarrow> update_at s p f = s"
  using update_at_cong[of s p T f "\<lambda>T. T"] by (simp add: update_at_ident)

lemma wf_update_at:
  "wf_node s \<Longrightarrow> (\<And>T. lookup s p = Some T \<Longrightarrow> wf_node (f T)) \<Longrightarrow> wf_node (update_at s p f)"
proof (induction p arbitrary: s)
  case Nil
  then show ?case by simp
next
  case (Cons a p)
  show ?case
  proof (cases s)
    case File
    then show ?thesis by simp
  next
    case (Dir es)
    have names: "map fst (map (\<lambda>(k, c). if k = a then (k, update_at c p f) else (k, c)) es) = map fst es"
      by (induction es) auto
    have "\<And>k c. (k, c) \<in> set es \<Longrightarrow> k = a \<Longrightarrow> wf_node (update_at c p f)"
    proof -
      fix k c assume kc: "(k, c) \<in> set es" "k = a"
      then have m: "map_of es a = Some c" using Cons.prems(1) Dir by simp
      then have wfc: "wf_node c" using wf_child Cons.prems(1) Dir by blast
      have "\<And>T. lookup c p = Some T \<Longrightarrow> wf_node (f T)"
        using Cons.prems(2) Dir m by simp
      then show "wf_node (update_at c p f)" using Cons.IH[OF wfc] by blast
    qed
    moreover have "\<And>k c. (k, c) \<in> set es \<Longrightarrow> wf_node c"
      using Cons.prems(1) Dir by (auto simp: list_all_iff)
    ultimately have "list_all (\<lambda>(n, c). wf_node c)
        (map (\<lambda>(k, c). if k = a then (k, update_at c p f) else (k, c)) es)"
      by (auto simp: list_all_iff split: if_splits)
    moreover have "distinct (map fst (map (\<lambda>(k, c). if k = a then (k, update_at c p f) else (k, c)) es))"
      unfolding names using Dir Cons.prems(1) by simp
    ultimately show ?thesis using Dir by (simp del: map_map)
  qed
qed

lemma wf_prune_walk: "wf_node d \<Longrightarrow> wf_node (prune_walk r d)"
proof (induction r d rule: prune_walk.induct)
  case (1 r)
  then show ?case by simp
next
  case (2 r es)
  let ?es1 = "map (\<lambda>(n, c). (n, if isdir c \<and> n \<notin> set (ignore r) then prune_walk r c else c)) es"
  have names: "map fst ?es1 = map fst es" by (induction es) auto
  have d1: "distinct (map fst ?es1)" unfolding names using "2.prems" by simp
  have "\<And>n c. (n, c) \<in> set es \<Longrightarrow> wf_node (if isdir c \<and> n \<notin> set (ignore r) then prune_walk r c else c)"
    using 2 by (auto simp: list_all_iff)
  then have w1: "list_all (\<lambda>(n, c). wf_node c) ?es1" by (auto simp: list_all_iff)
  have "distinct (map fst (filter (\<lambda>(n, c). \<not> (isdir c \<and> n \<notin> set (ignore r) \<and> c = Dir [])) ?es1))"
    using d1 by (rule distinct_map_filter)
  moreover have "list_all (\<lambda>(n, c). wf_node c)
      (filter (\<lambda>(n, c). \<not> (isdir c \<and> n \<notin> set (ignore r) \<and> c = Dir [])) ?es1)"
    using w1 by (auto simp: list_all_iff)
  ultimately show ?case unfolding prune_walk_entries by simp
qed

lemma lookup_size: "lookup s p = Some T \<Longrightarrow> size T \<le> size s"
proof (induction s p rule: lookup.induct)
  case (1 n)
  then show ?case by simp
next
  case (2 s p)
  then show ?case by simp
next
  case (3 es s p)
  then obtain c where c: "map_of es s = Some c" "lookup c p = Some T"
    by (auto split: option.splits)
  then have "size T \<le> size c" using 3 by (auto dest: map_of_SomeD)
  then show ?case using size_child[OF c(1)] by simp
qed

subsection \<open>The walk computes the pruned tree\<close>

lemma lookup_child: "lookup s p = Some (Dir es) \<Longrightarrow> lookup s (p @ [n]) = map_of es n"
  by (simp add: lookup_snoc)

lemma check_dir_child:
  "lookup s p = Some (Dir es) \<Longrightarrow> check_dir s (p @ [n]) = (\<exists>c. map_of es n = Some c \<and> isdir c)"
  by (auto simp: check_dir_def lookup_child isdir_def split: option.splits node.splits)

lemma listdir_child_empty:
  "lookup s p = Some (Dir es) \<Longrightarrow> (listdir s (p @ [n]) = Some []) = (map_of es n = Some (Dir []))"
  by (auto simp: listdir_def lookup_child split: option.splits node.splits)

lemma remove_child: "remove s (p @ [n]) = update_at s p (del_entry n)"
  by (simp add: remove_def)

lemma basename_child: "basename (p @ [n]) = n"
  by (simp add: basename_def)

lemma prune_step:
  assumes "lookup s p = Some (Dir es)"
  shows "(if prune_fil r s (p @ [n]) then prune_body (p @ [n]) s else s) =
         (if map_of es n = Some (Dir []) \<and> n \<notin> set (ignore r) then update_at s p (del_entry n) else s)"
  by (auto simp: check_dir_child[OF assms] listdir_child_empty[OF assms] remove_child basename_child
        isdir_def)

lemma lookup_update_at_self:
  "lookup s p = Some T \<Longrightarrow> lookup (update_at s p f) p = Some (f T)"
  using lookup_update_at[of s p f "[]"] by simp

lemma wf_del_entry: "wf_node d \<Longrightarrow> wf_node (del_entry n d)"
  by (cases d) (auto simp: del_entry_def list_all_iff distinct_map_filter)

lemma drop_empty_none: "drop_empty {} r (Dir es) = Dir es"
  by (simp add: drop_empty_def)

lemma drop_empty_after_del:
  assumes "distinct (map fst es)" "map_of es n = Some (Dir [])" "n \<notin> set (ignore r)"
  shows "drop_empty N r (del_entry n (Dir es)) = drop_empty (insert n N) r (Dir es)"
proof -
  have "\<And>k c. (k, c) \<in> set es \<Longrightarrow>
      (k \<noteq> n \<and> \<not> (k \<in> N \<and> isdir c \<and> k \<notin> set (ignore r) \<and> c = Dir []))
       = (\<not> (k \<in> insert n N \<and> isdir c \<and> k \<notin> set (ignore r) \<and> c = Dir []))"
  proof -
    fix k c assume kc: "(k, c) \<in> set es"
    then have "map_of es k = Some c" using assms(1) by simp
    then have "k = n \<Longrightarrow> c = Dir []" using assms(2) by simp
    then show "(k \<noteq> n \<and> \<not> (k \<in> N \<and> isdir c \<and> k \<notin> set (ignore r) \<and> c = Dir []))
       = (\<not> (k \<in> insert n N \<and> isdir c \<and> k \<notin> set (ignore r) \<and> c = Dir []))"
      using assms(3) by (auto simp: isdir_def)
  qed
  then have "filter (\<lambda>(k, c). \<not> (k \<in> N \<and> isdir c \<and> k \<notin> set (ignore r) \<and> c = Dir []))
               (filter (\<lambda>(k, c). k \<noteq> n) es)
           = filter (\<lambda>(k, c). \<not> (k \<in> insert n N \<and> isdir c \<and> k \<notin> set (ignore r) \<and> c = Dir [])) es"
    unfolding filter_filter by (intro filter_cong) auto
  then show ?thesis by (simp add: drop_empty_def del_entry_def)
qed

lemma drop_empty_kept:
  assumes "distinct (map fst es)" "\<not> (map_of es n = Some (Dir []) \<and> n \<notin> set (ignore r))"
  shows "drop_empty N r (Dir es) = drop_empty (insert n N) r (Dir es)"
proof -
  have "\<And>k c. (k, c) \<in> set es \<Longrightarrow>
      (\<not> (k \<in> N \<and> isdir c \<and> k \<notin> set (ignore r) \<and> c = Dir []))
       = (\<not> (k \<in> insert n N \<and> isdir c \<and> k \<notin> set (ignore r) \<and> c = Dir []))"
  proof -
    fix k c assume kc: "(k, c) \<in> set es"
    then have "map_of es k = Some c" using assms(1) by simp
    then have "k = n \<Longrightarrow> \<not> (c = Dir [] \<and> n \<notin> set (ignore r))" using assms(2) by auto
    then show "(\<not> (k \<in> N \<and> isdir c \<and> k \<notin> set (ignore r) \<and> c = Dir []))
       = (\<not> (k \<in> insert n N \<and> isdir c \<and> k \<notin> set (ignore r) \<and> c = Dir []))"
      by auto
  qed
  then have "filter (\<lambda>(k, c). \<not> (k \<in> N \<and> isdir c \<and> k \<notin> set (ignore r) \<and> c = Dir [])) es
           = filter (\<lambda>(k, c). \<not> (k \<in> insert n N \<and> isdir c \<and> k \<notin> set (ignore r) \<and> c = Dir [])) es"
    by (intro filter_cong) auto
  then show ?thesis by (simp add: drop_empty_def)
qed

lemma yield_phase:
  "wf_node s \<Longrightarrow> lookup s p = Some (Dir es) \<Longrightarrow>
   fold (\<lambda>q st. if prune_fil r st q then prune_body q st else st) (map (\<lambda>n. p @ [n]) ns) s
     = update_at s p (drop_empty (set ns) r)"
proof (induction ns arbitrary: s es)
  case Nil
  then show ?case using update_at_same[of s p "Dir es" "drop_empty {} r"] by (simp add: drop_empty_none)
next
  case (Cons n ns)
  have dist: "distinct (map fst es)" using wf_lookup[OF Cons.prems] by simp
  show ?case
  proof (cases "map_of es n = Some (Dir []) \<and> n \<notin> set (ignore r)")
    case True
    let ?s' = "update_at s p (del_entry n)"
    have wf': "wf_node ?s'"
      using Cons.prems wf_lookup[OF Cons.prems(1)] by (intro wf_update_at) (auto intro: wf_del_entry)
    have look': "lookup ?s' p = Some (Dir (filter (\<lambda>(k, c). k \<noteq> n) es))"
      using lookup_update_at_self[OF Cons.prems(2), of "del_entry n"] by (simp add: del_entry_def)
    have "fold (\<lambda>q st. if prune_fil r st q then prune_body q st else st) (map (\<lambda>n. p @ [n]) (n # ns)) s
        = fold (\<lambda>q st. if prune_fil r st q then prune_body q st else st) (map (\<lambda>n. p @ [n]) ns) ?s'"
      using prune_step[OF Cons.prems(2), where r = r and n = n] True by simp
    also have "\<dots> = update_at ?s' p (drop_empty (set ns) r)"
      using Cons.IH[OF wf' look'] .
    also have "\<dots> = update_at s p (\<lambda>T. drop_empty (set ns) r (del_entry n T))"
      by (rule update_at_comp)
    also have "\<dots> = update_at s p (drop_empty (set (n # ns)) r)"
      using drop_empty_after_del[OF dist, where n = n and r = r and N = "set ns"] True
      by (intro update_at_cong[OF Cons.prems]) simp
    finally show ?thesis .
  next
    case False
    have "fold (\<lambda>q st. if prune_fil r st q then prune_body q st else st) (map (\<lambda>n. p @ [n]) (n # ns)) s
        = fold (\<lambda>q st. if prune_fil r st q then prune_body q st else st) (map (\<lambda>n. p @ [n]) ns) s"
      using prune_step[OF Cons.prems(2), where r = r and n = n] False by simp
    also have "\<dots> = update_at s p (drop_empty (set ns) r)"
      using Cons.IH[OF Cons.prems] .
    also have "\<dots> = update_at s p (drop_empty (set (n # ns)) r)"
      using drop_empty_kept[OF dist False, where N = "set ns"]
      by (intro update_at_cong[OF Cons.prems]) simp
    finally show ?thesis .
  qed
qed

lemma map_of_update_other:
  "k \<noteq> s \<Longrightarrow> map_of (map (\<lambda>(k, c). if k = s then (k, g c) else (k, c)) es) k = map_of es k"
  by (induction es) auto

lemma update_at_single:
  "update_at (Dir es) [n] f = Dir (map (\<lambda>(k, c). if k = n then (k, f c) else (k, c)) es)"
  by (induction es) auto

lemma walk_children_none: "walk_children {} r (Dir es) = Dir es"
proof -
  have "map (\<lambda>(n, c). (n, c)) es = es" by (induction es) auto
  then show ?thesis by (simp add: walk_children_def)
qed

lemma walk_children_after_child:
  assumes "n \<notin> N"
  shows "walk_children N r (update_at (Dir es) [n] (prune_walk r)) = walk_children (insert n N) r (Dir es)"
  using assms by (induction es) (auto simp: walk_children_def)

lemma recurse_phase:
  assumes IH: "\<And>s p T. wf_node s \<Longrightarrow> lookup s p = Some T \<Longrightarrow> isdir T \<Longrightarrow> size T \<le> k \<Longrightarrow>
      visit_each k (prune_fil r) (prune_rec r) prune_body p s = Some (update_at s p (prune_walk r))"
  shows "wf_node s \<Longrightarrow> lookup s p = Some (Dir es) \<Longrightarrow> distinct ns \<Longrightarrow>
     \<forall>n \<in> set ns. \<exists>c. map_of es n = Some c \<and> isdir c \<and> size c \<le> k \<Longrightarrow>
     fold (\<lambda>subdir st. Option.bind st (visit_each k (prune_fil r) (prune_rec r) prune_body subdir))
          (map (\<lambda>n. p @ [n]) ns) (Some s)
       = Some (update_at s p (walk_children (set ns) r))"
proof (induction ns arbitrary: s es)
  case Nil
  then show ?case
    using update_at_same[of s p "Dir es" "walk_children {} r"] by (simp add: walk_children_none)
next
  case (Cons n ns)
  obtain c where c: "map_of es n = Some c" "isdir c" "size c \<le> k" using Cons.prems(4) by auto
  have lc: "lookup s (p @ [n]) = Some c" using lookup_child[OF Cons.prems(2)] c(1) by simp
  let ?s' = "update_at s (p @ [n]) (prune_walk r)"
  have step: "visit_each k (prune_fil r) (prune_rec r) prune_body (p @ [n]) s = Some ?s'"
    using IH[OF Cons.prems(1) lc c(2,3)] .
  have s'_eq: "?s' = update_at s p (\<lambda>T. update_at T [n] (prune_walk r))"
    by (rule update_at_append)
  have wf': "wf_node ?s'"
    using Cons.prems(1) wf_lookup[OF Cons.prems(1) lc]
    by (intro wf_update_at) (auto simp: lc intro: wf_prune_walk)
  let ?es' = "map (\<lambda>(k, c). if k = n then (k, prune_walk r c) else (k, c)) es"
  have look': "lookup ?s' p = Some (Dir ?es')"
    unfolding s'_eq using lookup_update_at_self[OF Cons.prems(2), of "\<lambda>T. update_at T [n] (prune_walk r)"]
    by (simp only: update_at_single)
  have rest: "\<forall>m \<in> set ns. \<exists>c. map_of ?es' m = Some c \<and> isdir c \<and> size c \<le> k"
  proof
    fix m assume m: "m \<in> set ns"
    then have "m \<noteq> n" using Cons.prems(3) by auto
    then have "map_of ?es' m = map_of es m" by (rule map_of_update_other)
    then show "\<exists>c. map_of ?es' m = Some c \<and> isdir c \<and> size c \<le> k"
      using Cons.prems(4) m by simp
  qed
  have dns: "distinct ns" and nn: "n \<notin> set ns" using Cons.prems(3) by simp_all
  have "fold (\<lambda>subdir st. Option.bind st (visit_each k (prune_fil r) (prune_rec r) prune_body subdir))
          (map (\<lambda>n. p @ [n]) (n # ns)) (Some s)
      = fold (\<lambda>subdir st. Option.bind st (visit_each k (prune_fil r) (prune_rec r) prune_body subdir))
          (map (\<lambda>n. p @ [n]) ns) (Some ?s')"
    using step by simp
  also have "\<dots> = Some (update_at ?s' p (walk_children (set ns) r))"
    using Cons.IH[OF wf' look' dns rest] .
  also have "update_at ?s' p (walk_children (set ns) r)
      = update_at s p (\<lambda>T. walk_children (set ns) r (update_at T [n] (prune_walk r)))"
    unfolding s'_eq by (rule update_at_comp)
  also have "\<dots> = update_at s p (walk_children (set (n # ns)) r)"
    using walk_children_after_child[OF nn, of r es]
    by (intro update_at_cong[OF Cons.prems(1,2)]) simp
  finally show ?case .
qed

lemma walk_then_drop:
  assumes "distinct (map fst es)"
  shows "drop_empty (set (map fst es)) r
           (walk_children {n \<in> set (map fst es). (\<exists>c. map_of es n = Some c \<and> isdir c) \<and> n \<notin> set (ignore r)} r (Dir es))
         = prune_walk r (Dir es)"
proof -
  let ?N = "{n \<in> set (map fst es). (\<exists>c. map_of es n = Some c \<and> isdir c) \<and> n \<notin> set (ignore r)}"
  let ?es1 = "map (\<lambda>(n, c). (n, if isdir c \<and> n \<notin> set (ignore r) then prune_walk r c else c)) es"
  have "\<And>n c. (n, c) \<in> set es \<Longrightarrow> (n \<in> ?N) = (isdir c \<and> n \<notin> set (ignore r))"
  proof -
    fix n c assume "(n, c) \<in> set es"
    then have "map_of es n = Some c" "n \<in> set (map fst es)" using assms by (simp, force)
    then show "(n \<in> ?N) = (isdir c \<and> n \<notin> set (ignore r))" by auto
  qed
  then have 1: "map (\<lambda>(n, c). if n \<in> ?N then (n, prune_walk r c) else (n, c)) es = ?es1"
    by (intro map_cong) auto
  have "\<And>x. x \<in> set ?es1 \<Longrightarrow> fst x \<in> set (map fst es)" by force
  then have 2: "filter (\<lambda>(n, c). \<not> (n \<in> set (map fst es) \<and> isdir c \<and> n \<notin> set (ignore r) \<and> c = Dir [])) ?es1
      = filter (\<lambda>(n, c). \<not> (isdir c \<and> n \<notin> set (ignore r) \<and> c = Dir [])) ?es1"
    by (intro filter_cong refl) (simp add: case_prod_beta)
  show ?thesis
    unfolding prune_walk_entries walk_children_def drop_empty_def node.case 1 2 ..
qed

lemma visit_each_prune:
  "wf_node s \<Longrightarrow> lookup s p = Some T \<Longrightarrow> isdir T \<Longrightarrow> size T \<le> k \<Longrightarrow>
     visit_each k (prune_fil r) (prune_rec r) prune_body p s = Some (update_at s p (prune_walk r))"
proof (induction k arbitrary: s p T)
  case 0
  then show ?case by (cases T) (simp_all add: isdir_def)
next
  case (Suc k)
  obtain es where T: "T = Dir es" using Suc.prems(3) by (cases T) (simp_all add: isdir_def)
  have look: "lookup s p = Some (Dir es)" using Suc.prems(2) T by simp
  have dist: "distinct (map fst es)" using wf_lookup[OF Suc.prems(1) look] by simp
  let ?ds = "filter (\<lambda>n. (\<exists>c. map_of es n = Some c \<and> isdir c) \<and> n \<notin> set (ignore r)) (map fst es)"
  have ld: "listdir s p = Some (map (\<lambda>n. p @ [n]) (map fst es))"
    using look by (simp add: listdir_def)
  have dirs: "filter (\<lambda>q. check_dir s q \<and> prune_rec r q) (map (\<lambda>n. p @ [n]) (map fst es))
      = map (\<lambda>n. p @ [n]) ?ds"
    by (simp add: filter_map comp_def check_dir_child[OF look] basename_child)
  have small: "\<forall>n \<in> set ?ds. \<exists>c. map_of es n = Some c \<and> isdir c \<and> size c \<le> k"
  proof
    fix n assume "n \<in> set ?ds"
    then obtain c where c: "map_of es n = Some c" "isdir c" by auto
    have "size c < size T" using size_child[OF c(1)] T by simp
    then show "\<exists>c. map_of es n = Some c \<and> isdir c \<and> size c \<le> k" using c Suc.prems(4) by auto
  qed
  let ?s1 = "update_at s p (walk_children (set ?ds) r)"
  have phase1: "fold (\<lambda>subdir st. Option.bind st (visit_each k (prune_fil r) (prune_rec r) prune_body subdir))
          (map (\<lambda>n. p @ [n]) ?ds) (Some s) = Some ?s1"
    using recurse_phase[OF Suc.IH Suc.prems(1) look _ small] dist by simp
  have wfT1: "wf_node (walk_children (set ?ds) r (Dir es))"
  proof -
    have names: "map fst (map (\<lambda>(n, c). if n \<in> set ?ds then (n, prune_walk r c) else (n, c)) es) = map fst es"
      by (induction es) auto
    have "\<And>n c. (n, c) \<in> set es \<Longrightarrow> wf_node c \<and> wf_node (prune_walk r c)"
      using wf_lookup[OF Suc.prems(1) look] by (auto simp: list_all_iff intro: wf_prune_walk)
    then have "list_all (\<lambda>(n, c). wf_node c)
        (map (\<lambda>(n, c). if n \<in> set ?ds then (n, prune_walk r c) else (n, c)) es)"
      by (auto simp: list_all_iff split: if_splits)
    moreover have "distinct (map fst (map (\<lambda>(n, c). if n \<in> set ?ds then (n, prune_walk r c) else (n, c)) es))"
      unfolding names using dist .
    ultimately show ?thesis by (simp add: walk_children_def del: map_map)
  qed
  have wf1: "wf_node ?s1"
    using Suc.prems(1) wfT1 by (intro wf_update_at) (auto simp: look)
  obtain es1 where es1: "walk_children (set ?ds) r (Dir es) = Dir es1"
    by (simp add: walk_children_def)
  have look1: "lookup ?s1 p = Some (Dir es1)"
    using lookup_update_at_self[OF look, of "walk_children (set ?ds) r"] es1 by simp
  have phase2: "fold (\<lambda>q st. if prune_fil r st q then prune_body q st else st)
          (map (\<lambda>n. p @ [n]) (map fst es)) ?s1 = update_at ?s1 p (drop_empty (set (map fst es)) r)"
    using yield_phase[OF wf1 look1] .
  have "update_at ?s1 p (drop_empty (set (map fst es)) r)
      = update_at s p (\<lambda>T. drop_empty (set (map fst es)) r (walk_children (set ?ds) r T))"
    by (rule update_at_comp)
  also have "\<dots> = update_at s p (prune_walk r)"
  proof (intro update_at_cong[OF Suc.prems(1) look])
    have "set ?ds = {n \<in> set (map fst es). (\<exists>c. map_of es n = Some c \<and> isdir c) \<and> n \<notin> set (ignore r)}"
      by auto
    then show "drop_empty (set (map fst es)) r (walk_children (set ?ds) r (Dir es)) = prune_walk r (Dir es)"
      using walk_then_drop[OF dist, of r] by simp
  qed
  finally have final: "update_at ?s1 p (drop_empty (set (map fst es)) r) = update_at s p (prune_walk r)" .
  show ?case
    unfolding visit_each.simps ld option.case Let_def dirs phase1 phase2 final ..
qed

lemma prune_eq:
  assumes "wf_node fs" "check_dir fs (repodir r)"
  shows "prune r fs = Some (update_at fs (repodir r) (prune_walk r))"
proof -
  obtain es where look: "lookup fs (repodir r) = Some (Dir es)"
    using assms(2) by (auto simp: check_dir_def split: option.splits node.splits)
  have "isdir (Dir es)" by (simp add: isdir_def)
  then show ?thesis
    unfolding prune_def using visit_each_prune[OF assms(1) look _ lookup_size[OF look]] by blast
qed

lemma prune_walk_isdir: "isdir d \<Longrightarrow> \<exists>es. prune_walk r d = Dir es"
  by (cases d) (simp_all add: isdir_def prune_walk_entries)

section \<open>The two maps as inverses of each other\<close>

text \<open>
  Claim C1 (as amended). For normalised roots and every normalised relative path \<open>rel\<close>:
  mapping the repository path \<open>repodir/rel\<close> to its home path and back gives
  \<open>repodir/rel\<close> again, under both conventions. Mapping the home path \<open>homedir/rel\<close> to
  its repository path and back gives \<open>homedir/rel\<close> again when the dot is preserved, and,
  when the dot is stripped, for the paths whose first segment starts with a dot (and is
  not \<^verbatim>\<open>...\<close>). In particular \<^verbatim>\<open>~/.bashrc\<close> maps to \<^verbatim>\<open>repo/bashrc\<close> and back.
\<close>

theorem mapping_roundtrip:
  assumes "valid_path (repodir r)" "valid_path (homedir r)" "valid_path rel"
  shows "name_to_target r (target_to_name r (repodir r @ rel)) = repodir r @ rel
       \<and> (dot r \<longrightarrow> target_to_name r (name_to_target r (homedir r @ rel)) = homedir r @ rel)
       \<and> (\<not> dot r \<and> (\<exists>s rest. rel = (CHR ''.'' # s) # rest \<and> s \<noteq> ''..'') \<longrightarrow>
            target_to_name r (name_to_target r (homedir r @ rel)) = homedir r @ rel)"
proof (intro conjI impI)
  show "name_to_target r (target_to_name r (repodir r @ rel)) = repodir r @ rel"
  proof (cases rel)
    case Nil
    then show ?thesis
      using assms name_to_target_root[of r] name_to_target_parent[of r]
      by (simp add: target_to_name_root)
  next
    case (Cons s rest)
    show ?thesis
    proof (cases "dot r")
      case True
      then show ?thesis
        using assms Cons by (simp add: target_to_name_below name_to_target_below_dot)
    next
      case False
      have "join (repodir r) (sepjoin (s # rest)) = repodir r @ s # rest"
        using assms Cons by (intro join_sepjoin) simp_all
      then show ?thesis
        using assms Cons False by (simp add: target_to_name_below name_to_target_first_char)
    qed
  qed
next
  assume d: "dot r"
  show "target_to_name r (name_to_target r (homedir r @ rel)) = homedir r @ rel"
  proof (cases rel)
    case Nil
    then show ?thesis using assms d by (simp add: name_to_target_root target_to_name_root)
  next
    case (Cons s rest)
    then show ?thesis
      using assms d by (simp add: name_to_target_below_dot target_to_name_below)
  qed
next
  assume a: "\<not> dot r \<and> (\<exists>s rest. rel = (CHR ''.'' # s) # rest \<and> s \<noteq> ''..'')"
  then obtain s rest where rel: "rel = (CHR ''.'' # s) # rest" and s: "s \<noteq> ''..''" by blast
  have vs: "valid_seg (CHR ''.'' # s)" and vr: "valid_path rest"
    using assms(3) rel by (simp_all add: valid_path_def)
  have v: "valid_path (s # rest)"
    using valid_seg_undot[OF vs s] vr by (simp add: valid_path_def)
  have 1: "name_to_target r (homedir r @ rel) = repodir r @ s # rest"
    using a assms(1) v by (simp add: rel name_to_target_first_char join_sepjoin)
  have 2: "target_to_name r (repodir r @ s # rest) = homedir r @ rel"
    using a assms(2) v by (simp add: target_to_name_below rel)
  show "target_to_name r (name_to_target r (homedir r @ rel)) = homedir r @ rel"
    unfolding 1 by (rule 2)
qed

theorem mapping_roundtrip_witness:
  "valid_path (repodir ex_repo) \<and> valid_path (homedir ex_repo) \<and> valid_path [''.bashrc'']
   \<and> \<not> dot ex_repo
   \<and> name_to_target ex_repo [''home'', ''u'', ''.bashrc''] = [''repo'', ''bashrc'']
   \<and> target_to_name ex_repo [''repo'', ''bashrc''] = [''home'', ''u'', ''.bashrc'']
   \<and> name_to_target ex_repo (target_to_name ex_repo (repodir ex_repo @ [''.bashrc'']))
        = repodir ex_repo @ [''.bashrc'']
   \<and> target_to_name ex_repo (name_to_target ex_repo (homedir ex_repo @ [''.bashrc'']))
        = homedir ex_repo @ [''.bashrc'']"
proof -
  have v: "valid_path (repodir ex_repo)" "valid_path (homedir ex_repo)" "valid_path [''.bashrc'']"
    by (simp_all add: ex_repo_def valid_path_def valid_seg_def)
  have d: "\<not> dot ex_repo" by (simp add: ex_repo_def)
  have e1: "name_to_target ex_repo [''home'', ''u'', ''.bashrc''] = [''repo'', ''bashrc'']"
    by code_simp
  have e2: "target_to_name ex_repo [''repo'', ''bashrc''] = [''home'', ''u'', ''.bashrc'']"
    by code_simp
  show ?thesis
    using mapping_roundtrip[OF v] v d e1 e2 by simp
qed

text \<open>
  Claim C1 as stated fails in the direction from the home path: \<^verbatim>\<open>~/afile\<close> is mapped to
  \<^verbatim>\<open>repo/file\<close>, which is mapped back to \<^verbatim>\<open>~/.file\<close>.
\<close>

theorem reverse_roundtrip_counterexample:
  "target_to_name ex_repo (name_to_target ex_repo [''home'', ''u'', ''afile''])
     \<noteq> [''home'', ''u'', ''afile'']"
  by code_simp

text \<open>
  Claim C9. When the dot is not preserved, \<open>name_to_target\<close> drops the first character of
  the home-relative path whatever that character is; so \<^verbatim>\<open>~/.file\<close> and \<^verbatim>\<open>~/afile\<close> have
  the same repository target and the map is not injective on the paths below the home
  directory.
\<close>

theorem name_to_target_not_injective:
  assumes "\<not> dot r"
  shows "(\<forall>c s rest. name_to_target r (homedir r @ (c # s) # rest)
                        = join (repodir r) (sepjoin (s # rest)))
       \<and> name_to_target r (homedir r @ [''.file'']) = name_to_target r (homedir r @ [''afile''])
       \<and> homedir r @ [''.file''] \<noteq> homedir r @ [''afile'']
       \<and> \<not> inj_on (name_to_target r) {nm. strict_prefix (homedir r) nm}"
proof -
  have 1: "\<forall>c s rest. name_to_target r (homedir r @ (c # s) # rest)
                        = join (repodir r) (sepjoin (s # rest))"
    using assms by (simp add: name_to_target_first_char)
  have 2: "name_to_target r (homedir r @ [''.file'']) = name_to_target r (homedir r @ [''afile''])"
    using assms by (simp add: name_to_target_first_char)
  have 3: "homedir r @ [''.file''] \<noteq> homedir r @ [''afile'']" by simp
  have "homedir r @ [''.file''] \<in> {nm. strict_prefix (homedir r) nm}"
       "homedir r @ [''afile''] \<in> {nm. strict_prefix (homedir r) nm}"
    by (simp_all add: strict_prefix_def)
  with 2 3 have 4: "\<not> inj_on (name_to_target r) {nm. strict_prefix (homedir r) nm}"
    unfolding inj_on_def by blast
  from 1 2 3 4 show ?thesis by blast
qed

theorem name_to_target_not_injective_witness:
  "\<not> dot ex_repo
   \<and> name_to_target ex_repo [''home'', ''u'', ''.file''] = [''repo'', ''file'']
   \<and> name_to_target ex_repo [''home'', ''u'', ''afile''] = [''repo'', ''file'']"
proof -
  have d: "\<not> dot ex_repo" by (simp add: ex_repo_def)
  have h: "homedir ex_repo = [''home'', ''u'']" by (simp add: ex_repo_def)
  have e: "name_to_target ex_repo [''home'', ''u'', ''.file''] = [''repo'', ''file'']"
    by code_simp
  show ?thesis
    using name_to_target_not_injective[OF d] d e h by simp
qed

section \<open>Validation\<close>

text \<open>
  The tests of \<open>dotfile\<close> are glob matches against the pattern made of the root and
  \<^verbatim>\<open>/*\<close>. For normalised paths and a root other than \<^verbatim>\<open>/\<close> without glob characters they
  are containment, \<open>rooted_in_iff_below\<close>; the claims about containment are proved for such
  roots.
\<close>




text \<open>
  Claim C3 as stated fails: with the repository outside the home directory, a path inside
  the repository is rejected by the first check, as not rooted in the home directory.
\<close>

theorem in_repository_outside_home_counterexample:
  "strict_prefix (repodir ex_repo) [''repo'', ''vimrc'']
   \<and> dotfile ex_repo ex_fs [''repo'', ''vimrc''] = Inl (NotRootedInHome [''repo'', ''vimrc''])
   \<and> dotfile ex_repo ex_fs [''repo'', ''vimrc''] \<noteq> Inl (InRepository [''repo'', ''vimrc''])"
  by code_simp

text \<open>
  Claim C3 (as amended). For a normalised path, and for a home directory and a
  repository directory that are normalised, other than \<^verbatim>\<open>/\<close> and without glob characters:
  a path that lies inside the repository is always rejected, with \<open>InRepository\<close> when it
  also lies inside the home directory, and with \<open>NotRootedInHome\<close> when it does not.
\<close>

theorem dotfile_in_repository:
  assumes "valid_path nm"
    and "valid_path (homedir r)" "homedir r \<noteq> []" "glob_free (strpath (homedir r))"
    and "valid_path (repodir r)" "repodir r \<noteq> []" "glob_free (strpath (repodir r))"
    and "strict_prefix (repodir r) nm"
  shows "dotfile r fs nm =
           (if strict_prefix (homedir r) nm then Inl (InRepository nm) else Inl (NotRootedInHome nm))"
proof -
  have home: "rooted_in (homedir r) nm = strict_prefix (homedir r) nm"
    using assms(4,2,3,1) by (rule rooted_in_iff_below)
  have repo: "rooted_in (repodir r) nm"
    using rooted_in_iff_below[OF assms(7,5,6,1)] assms(8) by simp
  show ?thesis
    unfolding dotfile_def Let_def home using repo by simp
qed

theorem dotfile_in_repository_witness:
  "valid_path (homedir ex_repo_dot) \<and> homedir ex_repo_dot \<noteq> []
   \<and> glob_free (strpath (homedir ex_repo_dot))
   \<and> valid_path (repodir ex_repo_dot) \<and> repodir ex_repo_dot \<noteq> []
   \<and> glob_free (strpath (repodir ex_repo_dot))
   \<and> valid_path [''home'', ''u'', ''repo'', ''z'']
   \<and> strict_prefix (repodir ex_repo_dot) [''home'', ''u'', ''repo'', ''z'']
   \<and> strict_prefix (homedir ex_repo_dot) [''home'', ''u'', ''repo'', ''z'']
   \<and> dotfile ex_repo_dot ex_tree [''home'', ''u'', ''repo'', ''z'']
        = Inl (InRepository [''home'', ''u'', ''repo'', ''z''])
   \<and> valid_path (homedir ex_repo) \<and> homedir ex_repo \<noteq> [] \<and> glob_free (strpath (homedir ex_repo))
   \<and> valid_path (repodir ex_repo) \<and> repodir ex_repo \<noteq> [] \<and> glob_free (strpath (repodir ex_repo))
   \<and> valid_path [''repo'', ''vimrc'']
   \<and> strict_prefix (repodir ex_repo) [''repo'', ''vimrc'']
   \<and> \<not> strict_prefix (homedir ex_repo) [''repo'', ''vimrc'']
   \<and> dotfile ex_repo ex_fs [''repo'', ''vimrc''] = Inl (NotRootedInHome [''repo'', ''vimrc''])"
proof -
  have r: "valid_path (homedir ex_repo_dot)" "homedir ex_repo_dot \<noteq> []"
          "glob_free (strpath (homedir ex_repo_dot))"
          "valid_path (repodir ex_repo_dot)" "repodir ex_repo_dot \<noteq> []"
          "glob_free (strpath (repodir ex_repo_dot))"
    by code_simp+
  have 1: "valid_path [''home'', ''u'', ''repo'', ''z'']"
          "strict_prefix (repodir ex_repo_dot) [''home'', ''u'', ''repo'', ''z'']"
          "strict_prefix (homedir ex_repo_dot) [''home'', ''u'', ''repo'', ''z'']" by code_simp+
  have q: "valid_path (homedir ex_repo)" "homedir ex_repo \<noteq> []" "glob_free (strpath (homedir ex_repo))"
          "valid_path (repodir ex_repo)" "repodir ex_repo \<noteq> []" "glob_free (strpath (repodir ex_repo))"
    by code_simp+
  have 2: "valid_path [''repo'', ''vimrc'']"
          "strict_prefix (repodir ex_repo) [''repo'', ''vimrc'']"
          "\<not> strict_prefix (homedir ex_repo) [''repo'', ''vimrc'']" by code_simp+
  show ?thesis
    using dotfile_in_repository[OF 1(1) r 1(2), of ex_tree]
      dotfile_in_repository[OF 2(1) q 2(2), of ex_fs] r q 1 2
    by simp
qed




section \<open>Bulk resolution\<close>

text \<open>
  Claim C8. For every input, \<open>dotfiles\<close> returns: its first component is the list of the
  dotfiles of the entries of the expanded list that pass validation, in the order of that
  list; its second component, the errors printed, is the list of the errors of the other
  entries, in the same order. An entry that fails validation, with whichever of the four
  errors, is left out and reported, and every other entry is still treated: the two lists
  together are as long as the expanded list.
\<close>

theorem dotfiles_reports_and_continues:
  "dotfiles r fs set_order paths =
     (concat (map (\<lambda>p. case dotfile r fs p of Inr d \<Rightarrow> [d] | Inl err \<Rightarrow> [])
                  (expand r fs 0 (set_order paths))),
      concat (map (\<lambda>p. case dotfile r fs p of Inr d \<Rightarrow> [] | Inl err \<Rightarrow> [err])
                  (expand r fs 0 (set_order paths))))
   \<and> length (fst (dotfiles r fs set_order paths)) + length (snd (dotfiles r fs set_order paths))
       = length (expand r fs 0 (set_order paths))"
proof -
  have 1: "dotfiles r fs set_order paths =
     (concat (map (\<lambda>p. case dotfile r fs p of Inr d \<Rightarrow> [d] | Inl err \<Rightarrow> [])
                  (expand r fs 0 (set_order paths))),
      concat (map (\<lambda>p. case dotfile r fs p of Inr d \<Rightarrow> [] | Inl err \<Rightarrow> [err])
                  (expand r fs 0 (set_order paths))))"
    by (simp add: dotfiles_def Let_def map_construct_eq successes_eq del: not_None_eq)
  show ?thesis
    unfolding 1 by (simp add: successes_and_errors_length)
qed

theorem dotfiles_reports_and_continues_witness:
  "dotfiles ex_repo_dot ex_tree remdups ex_paths =
     ([\<lparr>name = [''home'', ''u'', ''dir'', ''a''], target = [''home'', ''u'', ''repo'', ''dir'', ''a'']\<rparr>,
       \<lparr>name = [''home'', ''u'', ''d1'', ''f1''], target = [''home'', ''u'', ''repo'', ''d1'', ''f1'']\<rparr>],
      [NotRootedInHome [''etc'', ''passwd''],
       InRepository [''home'', ''u'', ''repo'', ''z''],
       TargetIgnored [''home'', ''u'', ''dir'', ''b''],
       IsDirectory [''home'', ''u'', ''d2'']])
   \<and> length (expand ex_repo_dot ex_tree 0 (remdups ex_paths)) = 6"
proof -
  have e: "dotfiles ex_repo_dot ex_tree remdups ex_paths =
     ([\<lparr>name = [''home'', ''u'', ''dir'', ''a''], target = [''home'', ''u'', ''repo'', ''dir'', ''a'']\<rparr>,
       \<lparr>name = [''home'', ''u'', ''d1'', ''f1''], target = [''home'', ''u'', ''repo'', ''d1'', ''f1'']\<rparr>],
      [NotRootedInHome [''etc'', ''passwd''],
       InRepository [''home'', ''u'', ''repo'', ''z''],
       TargetIgnored [''home'', ''u'', ''dir'', ''b''],
       IsDirectory [''home'', ''u'', ''d2'']])"
    by code_simp
  show ?thesis
    using dotfiles_reports_and_continues[of ex_repo_dot ex_tree remdups ex_paths]
    unfolding e by simp
qed

text \<open>
  Claim C4 does not hold of the code. The loop removes the directory it has just expanded
  from the list it iterates over, so the entry after it moves into its place and is never
  looked at. Of two directories \<^verbatim>\<open>d1\<close> and \<^verbatim>\<open>d2\<close>, in whichever order the set lists them,
  only the first is expanded; the second stays in the list as a directory and is rejected
  by the validation, and its file is missing from the result.
\<close>

theorem dotfiles_skips_directory:
  "dotfiles ex_repo_dot ex_tree remdups [[''home'', ''u'', ''d1''], [''home'', ''u'', ''d2'']] =
     ([\<lparr>name = [''home'', ''u'', ''d1'', ''f1''], target = [''home'', ''u'', ''repo'', ''d1'', ''f1'']\<rparr>],
      [IsDirectory [''home'', ''u'', ''d2'']])
   \<and> dotfiles ex_repo_dot ex_tree (rev \<circ> remdups) [[''home'', ''u'', ''d1''], [''home'', ''u'', ''d2'']] =
     ([\<lparr>name = [''home'', ''u'', ''d2'', ''f2''], target = [''home'', ''u'', ''repo'', ''d2'', ''f2'']\<rparr>],
      [IsDirectory [''home'', ''u'', ''d1'']])"
  by code_simp

text \<open>
  Claim C5 does not hold of the code. Duplicates are removed from the input only, before
  the directories are expanded: when \<^verbatim>\<open>dir\<close> and \<^verbatim>\<open>dir/a\<close> are both passed, in whichever
  order the set lists them, the dotfile of \<^verbatim>\<open>dir/a\<close> is in the result twice.
\<close>

theorem dotfiles_duplicate_after_expansion:
  "dotfiles ex_repo_dot ex_tree remdups [[''home'', ''u'', ''dir''], [''home'', ''u'', ''dir'', ''a'']] =
     ([\<lparr>name = [''home'', ''u'', ''dir'', ''a''], target = [''home'', ''u'', ''repo'', ''dir'', ''a'']\<rparr>,
       \<lparr>name = [''home'', ''u'', ''dir'', ''c'', ''d''], target = [''home'', ''u'', ''repo'', ''dir'', ''c'', ''d'']\<rparr>,
       \<lparr>name = [''home'', ''u'', ''dir'', ''a''], target = [''home'', ''u'', ''repo'', ''dir'', ''a'']\<rparr>],
      [])
   \<and> dotfiles ex_repo_dot ex_tree (rev \<circ> remdups) [[''home'', ''u'', ''dir''], [''home'', ''u'', ''dir'', ''a'']] =
       dotfiles ex_repo_dot ex_tree remdups [[''home'', ''u'', ''dir''], [''home'', ''u'', ''dir'', ''a'']]
   \<and> \<not> distinct (fst (dotfiles ex_repo_dot ex_tree remdups
                              [[''home'', ''u'', ''dir''], [''home'', ''u'', ''dir'', ''a'']]))"
  by code_simp

section \<open>The contents of the repository\<close>

text \<open>
  Claim C7. When the repository directory exists, \<open>contents\<close> returns a list sorted by
  the path string of the names, and its elements are exactly the dotfiles
  \<open>\<lparr>name = target_to_name r e, target = e\<rparr>\<close> of the entries \<open>e\<close> below the repository
  directory that are not directories and have no ignored segment below the repository
  directory (their own basename included). A repository with the files \<^verbatim>\<open>z\<close>, \<^verbatim>\<open>a\<close>, \<^verbatim>\<open>m\<close>
  gives them in the order \<^verbatim>\<open>a\<close>, \<^verbatim>\<open>m\<close>, \<^verbatim>\<open>z\<close>.
\<close>

theorem contents_sorted_unignored_files:
  assumes "check_dir fs (repodir r)"
  shows "\<exists>ds. contents r fs = Some ds
           \<and> sorted (map (\<lambda>d. strpath (name d)) ds)
           \<and> set ds = {\<lparr>name = target_to_name r (repodir r @ rel), target = repodir r @ rel\<rparr> | rel.
                          rel \<noteq> [] \<and> lookup fs (repodir r @ rel) = Some File
                          \<and> (\<forall>s \<in> set rel. s \<notin> set (ignore r))}"
proof -
  let ?ds = "sort_key (\<lambda>d. strpath (name d))
               (map (\<lambda>tgt. \<lparr>name = target_to_name r tgt, target = tgt\<rparr>)
                    (contents_in r fs (repodir r)))"
  have 1: "contents r fs = Some ?ds" using assms by (simp add: contents_def)
  have 2: "sorted (map (\<lambda>d. strpath (name d)) ?ds)" by simp
  have 3: "set ?ds = {\<lparr>name = target_to_name r (repodir r @ rel), target = repodir r @ rel\<rparr> | rel.
                          rel \<noteq> [] \<and> lookup fs (repodir r @ rel) = Some File
                          \<and> (\<forall>s \<in> set rel. s \<notin> set (ignore r))}"
    by (auto simp: contents_in_set)
  show ?thesis using 1 2 3 by blast
qed

theorem contents_sorted_unignored_files_witness:
  "check_dir ex_tree (repodir ex_repo_dot)
   \<and> contents ex_repo_dot ex_tree =
       Some [\<lparr>name = [''home'', ''u'', ''a''], target = [''home'', ''u'', ''repo'', ''a'']\<rparr>,
             \<lparr>name = [''home'', ''u'', ''m''], target = [''home'', ''u'', ''repo'', ''m'']\<rparr>,
             \<lparr>name = [''home'', ''u'', ''z''], target = [''home'', ''u'', ''repo'', ''z'']\<rparr>]
   \<and> (\<exists>ds. contents ex_repo_dot ex_tree = Some ds \<and> sorted (map (\<lambda>d. strpath (name d)) ds))"
proof -
  have c: "check_dir ex_tree (repodir ex_repo_dot)" by code_simp
  have e: "contents ex_repo_dot ex_tree =
       Some [\<lparr>name = [''home'', ''u'', ''a''], target = [''home'', ''u'', ''repo'', ''a'']\<rparr>,
             \<lparr>name = [''home'', ''u'', ''m''], target = [''home'', ''u'', ''repo'', ''m'']\<rparr>,
             \<lparr>name = [''home'', ''u'', ''z''], target = [''home'', ''u'', ''repo'', ''z'']\<rparr>]"
    by code_simp
  show ?thesis using contents_sorted_unignored_files[OF c] c e by blast
qed

section \<open>Pruning the repository\<close>

text \<open>
  Claim C6 (as amended). On a well-formed file system in which the repository directory
  exists, a single call of \<open>prune\<close> returns a file system in which the repository
  directory is still a directory; every path below it that has an ignored segment (an
  ignored directory, and all that is inside one) is as it was; and no empty directory is
  left at a path below the repository directory whose segments are all outside the
  ignore list. In particular, of \<^verbatim>\<open>repo/empty1/empty2\<close> a single call removes both
  directories and leaves \<^verbatim>\<open>repo\<close>, empty.
\<close>

theorem prune_single_pass:
  assumes "wf_node fs" "check_dir fs (repodir r)"
  shows "\<exists>fs'. prune r fs = Some fs'
           \<and> check_dir fs' (repodir r)
           \<and> (\<forall>rel. (\<exists>s \<in> set rel. s \<in> set (ignore r)) \<longrightarrow>
                  lookup fs' (repodir r @ rel) = lookup fs (repodir r @ rel))
           \<and> (\<forall>rel. rel \<noteq> [] \<and> (\<forall>s \<in> set rel. s \<notin> set (ignore r)) \<longrightarrow>
                  lookup fs' (repodir r @ rel) \<noteq> Some (Dir []))"
proof -
  let ?fs' = "update_at fs (repodir r) (prune_walk r)"
  obtain es where look: "lookup fs (repodir r) = Some (Dir es)"
    using assms(2) by (auto simp: check_dir_def split: option.splits node.splits)
  have wfd: "wf_node (Dir es)" using wf_lookup[OF assms(1) look] .
  have below: "\<And>rel. lookup ?fs' (repodir r @ rel) = lookup (prune_walk r (Dir es)) rel"
    by (simp add: lookup_update_at look)
  have 1: "prune r fs = Some ?fs'" using prune_eq[OF assms] .
  obtain es' where "prune_walk r (Dir es) = Dir es'"
    using prune_walk_isdir[of "Dir es" r] by (auto simp: isdir_def)
  then have 2: "check_dir ?fs' (repodir r)"
    using below[of "[]"] by (simp add: check_dir_def)
  have 3: "\<forall>rel. (\<exists>s \<in> set rel. s \<in> set (ignore r)) \<longrightarrow>
                  lookup ?fs' (repodir r @ rel) = lookup fs (repodir r @ rel)"
  proof (intro allI impI)
    fix rel assume "\<exists>s \<in> set rel. s \<in> set (ignore r)"
    then have "lookup (prune_walk r (Dir es)) rel = lookup (Dir es) rel"
      using prune_walk_keeps_ignored[OF wfd] by blast
    moreover have "lookup fs (repodir r @ rel) = lookup (Dir es) rel"
      by (simp add: lookup_append look)
    ultimately show "lookup ?fs' (repodir r @ rel) = lookup fs (repodir r @ rel)"
      using below[of rel] by simp
  qed
  have 4: "\<forall>rel. rel \<noteq> [] \<and> (\<forall>s \<in> set rel. s \<notin> set (ignore r)) \<longrightarrow>
                  lookup ?fs' (repodir r @ rel) \<noteq> Some (Dir [])"
    using prune_walk_no_empty[OF wfd] by (simp add: below)
  show ?thesis using 1 2 3 4 by blast
qed

theorem prune_single_pass_witness:
  "wf_node ex_prune_fs \<and> check_dir ex_prune_fs (repodir ex_repo)
   \<and> lookup ex_prune_fs [''repo'', ''empty1'', ''empty2''] = Some (Dir [])
   \<and> prune ex_repo ex_prune_fs = Some (Dir [(''repo'', Dir [])])
   \<and> (\<exists>fs'. prune ex_repo ex_prune_fs = Some fs' \<and> check_dir fs' (repodir ex_repo))
   \<and> wf_node ex_ignored_fs \<and> check_dir ex_ignored_fs (repodir ex_repo)
   \<and> (\<exists>fs'. prune ex_repo ex_ignored_fs = Some fs'
         \<and> lookup fs' (repodir ex_repo @ [''.git'']) = lookup ex_ignored_fs (repodir ex_repo @ [''.git'']))"
proof -
  have a: "wf_node ex_prune_fs" "check_dir ex_prune_fs (repodir ex_repo)" by code_simp+
  have b: "lookup ex_prune_fs [''repo'', ''empty1'', ''empty2''] = Some (Dir [])"
          "prune ex_repo ex_prune_fs = Some (Dir [(''repo'', Dir [])])" by code_simp+
  have c: "wf_node ex_ignored_fs" "check_dir ex_ignored_fs (repodir ex_repo)" by code_simp+
  have i: "\<exists>s \<in> set [''.git'']. s \<in> set (ignore ex_repo)" by code_simp
  show ?thesis
    using prune_single_pass[OF a] prune_single_pass[OF c] a b c i by blast
qed

text \<open>
  Claim C6 as stated fails in its last part: pruning has converged on a repository with
  the ignored directory \<^verbatim>\<open>.git\<close> (a call changes nothing), and the empty directory
  \<^verbatim>\<open>.git/refs\<close>, whose basename is not ignored, remains below the repository directory.
\<close>

theorem prune_leaves_empty_directory_counterexample:
  "prune ex_repo ex_ignored_fs = Some ex_ignored_fs
   \<and> lookup ex_ignored_fs [''repo'', ''.git'', ''refs''] = Some (Dir [])
   \<and> basename [''repo'', ''.git'', ''refs''] \<notin> set (ignore ex_repo)"
  by code_simp

end
